theory Spec2Isabelle
  imports Complex_Main
begin

section \<open>The multi-emulator runner (main.py)\<close>

text \<open>
  The runner is embedded function by function. External effects (the wall clock,
  \<^verbatim>\<open>subprocess.run\<close>, \<^verbatim>\<open>subprocess.Popen\<close>, \<^verbatim>\<open>print\<close>, \<^verbatim>\<open>time.sleep\<close>,
  \<^verbatim>\<open>random.randint\<close>, the semaphore) act on an explicit \<open>world\<close> that is passed through
  every call; a \<^verbatim>\<open>raise\<close> is the \<open>Inl\<close> branch of a sum.
\<close>

subsection \<open>Configuration constants\<close>

definition BASE_AVD :: string where
  "BASE_AVD = ''MyAVD3''"

definition APK_PATH :: string where
  "APK_PATH = ''C:'' @ [CHR 0x5C] @ ''ac'' @ [CHR 0x5C] @ ''grab-5-367-200.apk''"

definition PACKAGE_NAME :: string where
  "PACKAGE_NAME = ''com.grabtaxi.passenger''"

definition RUN_TIME :: int where
  "RUN_TIME = 180"

definition BOOT_TIMEOUT :: int where
  "BOOT_TIMEOUT = 420"

definition CONCURRENT_LIMIT :: nat where
  "CONCURRENT_LIMIT = 2"

definition KEEP_EMULATORS :: bool where
  "KEEP_EMULATORS = True"

definition BASE_URL :: string where
  "BASE_URL = ''https://adswedmedia.com/redirect/manual-offer/1131/user/{userId}/site/Hh1Gk5''"

subsection \<open>Exceptions\<close>

text \<open>
  The values caught by the source's \<^verbatim>\<open>except Exception\<close> clauses: instances of
  \<^verbatim>\<open>Exception\<close>, each with its message. \<^verbatim>\<open>sys.exit\<close> is not an exception of this
  type: it is the exit status of \<open>main\<close>.
\<close>

datatype py_exception =
    RuntimeError string
  | TimeoutError string
  | FileNotFoundError string
  | OtherException string

fun str_exception :: "py_exception \<Rightarrow> string" where
  "str_exception (RuntimeError m) = m"
| "str_exception (TimeoutError m) = m"
| "str_exception (FileNotFoundError m) = m"
| "str_exception (OtherException m) = m"

subsection \<open>Python strings\<close>

text \<open>
  A \<^verbatim>\<open>str\<close> is a \<open>string\<close>; a \<open>char\<close> stands for the code point of its number, so the
  model covers text of code points below 256 (the output of \<^verbatim>\<open>adb\<close> is ASCII).
\<close>

definition digit_char :: "nat \<Rightarrow> char" where
  "digit_char d = char_of (48 + d)"

fun str_nat :: "nat \<Rightarrow> string" where
  "str_nat n = (if n < 10 then [digit_char n] else str_nat (n div 10) @ [digit_char (n mod 10)])"

declare str_nat.simps [simp del]

text \<open>\<^verbatim>\<open>str(i)\<close> of an integer, as the f-strings apply it.\<close>

definition str_int :: "int \<Rightarrow> string" where
  "str_int i = (if i < 0 then CHR ''-'' # str_nat (nat (- i)) else str_nat (nat i))"

text \<open>\<^verbatim>\<open>str.isspace\<close> on one character, for code points below 256.\<close>

definition is_space :: "char \<Rightarrow> bool" where
  "is_space c = ((of_char c :: nat) \<in> set [9, 10, 11, 12, 13, 28, 29, 30, 31, 32, 133, 160])"

text \<open>The line boundaries of \<^verbatim>\<open>str.splitlines\<close> below 256, apart from \<^verbatim>\<open>\r\n\<close>.\<close>

definition is_linebreak :: "char \<Rightarrow> bool" where
  "is_linebreak c = ((of_char c :: nat) \<in> set [10, 11, 12, 13, 28, 29, 30, 133])"

definition strip :: "string \<Rightarrow> string" where
  "strip s = rev (dropWhile is_space (rev (dropWhile is_space s)))"

text \<open>
  \<^verbatim>\<open>s.splitlines()\<close>: \<open>cur\<close> is the line read so far. A line break closes the line
  (also an empty one), \<^verbatim>\<open>\r\n\<close> is one break, and no empty line follows a final break.
\<close>

fun splitlines_from :: "string \<Rightarrow> string \<Rightarrow> string list" where
  "splitlines_from cur [] = (if cur = [] then [] else [cur])"
| "splitlines_from cur (c # cs) =
     (if is_linebreak c then
        (case cs of
           d # ds \<Rightarrow>
             if of_char c = (13::nat) \<and> of_char d = (10::nat)
             then cur # splitlines_from [] ds
             else cur # splitlines_from [] cs
         | [] \<Rightarrow> cur # splitlines_from [] cs)
      else splitlines_from (cur @ [c]) cs)"

definition splitlines :: "string \<Rightarrow> string list" where
  "splitlines s = splitlines_from [] s"

text \<open>\<^verbatim>\<open>s.split()\<close>: the maximal runs of non-whitespace characters.\<close>

fun split_from :: "string \<Rightarrow> string \<Rightarrow> string list" where
  "split_from cur [] = (if cur = [] then [] else [cur])"
| "split_from cur (c # cs) =
     (if is_space c then (if cur = [] then split_from [] cs else cur # split_from [] cs)
      else split_from (cur @ [c]) cs)"

definition split :: "string \<Rightarrow> string list" where
  "split s = split_from [] s"

text \<open>
  \<^verbatim>\<open>s.replace(old, new)\<close> for a non-empty \<open>old\<close>: the occurrences of \<open>old\<close> are replaced
  from the left, without overlap. (For an empty \<open>old\<close> Python inserts \<open>new\<close> around
  every character; the source's \<open>old\<close> is the literal \<^verbatim>\<open>{userId}\<close>, and the model
  leaves \<open>s\<close> as it is.)
\<close>

fun replace_from :: "nat \<Rightarrow> string \<Rightarrow> string \<Rightarrow> string \<Rightarrow> string" where
  "replace_from skip old new [] = []"
| "replace_from skip old new (c # cs) =
     (if 0 < skip then replace_from (skip - 1) old new cs
      else if old \<noteq> [] \<and> take (length old) (c # cs) = old
      then new @ replace_from (length old - 1) old new cs
      else c # replace_from 0 old new cs)"

definition replace :: "string \<Rightarrow> string \<Rightarrow> string \<Rightarrow> string" where
  "replace s old new = replace_from 0 old new s"

text \<open>
  \<^verbatim>\<open>repr\<close> of a list of strings, as \<^verbatim>\<open>print\<close> shows the command line of the emulator;
  for strings without quotes, backslashes and control characters, as all its arguments are.
\<close>

fun join :: "string \<Rightarrow> string list \<Rightarrow> string" where
  "join sep [] = []"
| "join sep [x] = x"
| "join sep (x # y # ys) = x @ sep @ join sep (y # ys)"

definition repr_list :: "string list \<Rightarrow> string" where
  "repr_list xs = ''['' @ join '', '' (map (\<lambda>x. [CHR 0x27] @ x @ [CHR 0x27]) xs) @ '']''"

definition str_opt :: "string option \<Rightarrow> string" where
  "str_opt s = (case s of None \<Rightarrow> ''None'' | Some t \<Rightarrow> t)"

text \<open>\<^verbatim>\<open>range(start, stop, step)\<close> for a positive step.\<close>

definition py_range :: "int \<Rightarrow> int \<Rightarrow> int \<Rightarrow> int list" where
  "py_range start stop step =
     map (\<lambda>k. start + step * int k) [0..<nat ((stop - start + step - 1) div step)]"

subsection \<open>The world\<close>

record completed_process =
  returncode :: int
  stdout :: "string option"
  stderr :: "string option"

text \<open>
  What one call of \<^verbatim>\<open>subprocess.run\<close> does: it raises or returns, after \<open>lag_ms\<close>
  milliseconds of wall-clock time (which also holds any oversleep of the
  \<^verbatim>\<open>time.sleep\<close> before it).
\<close>

record reply =
  outcome :: "py_exception + completed_process"
  lag_ms :: nat

datatype event =
    Print string
  | Run "string list"
  | Sleep int
  | Popen "string list"
  | Acquire
  | Release
  | Clone string
  | Start_thread string int
  | Join_thread string
  | Terminate "string list"

text \<open>
  \<open>now\<close> is the reading of \<^verbatim>\<open>time.time()\<close> in seconds; \<open>replies\<close> holds the reply to
  the k-th call of \<^verbatim>\<open>subprocess.run\<close> and \<open>calls\<close> counts the calls made; \<open>draws\<close>
  and \<open>drawn\<close> do the same for the random generator; \<open>popen_fault\<close> is the exception
  that opening the log file or \<^verbatim>\<open>Popen\<close> raises, \<open>clone_fault\<close> the one that
  \<^verbatim>\<open>fresh_clone_avd\<close> raises for a name, \<open>acquire_fault\<close> the one
  \<^verbatim>\<open>semaphore.acquire\<close> raises, if any; \<open>running\<close> tells whether \<^verbatim>\<open>proc.poll()\<close> is
  \<^verbatim>\<open>None\<close> for the process started with that command line; \<open>trace\<close> lists the effects
  so far, oldest first.
\<close>

record world =
  now :: real
  replies :: "nat \<Rightarrow> reply"
  calls :: nat
  draws :: "nat \<Rightarrow> nat"
  drawn :: nat
  popen_fault :: "py_exception option"
  acquire_fault :: "py_exception option"
  clone_fault :: "string \<Rightarrow> py_exception option"
  running :: "string list \<Rightarrow> bool"
  trace :: "event list"

definition py_print :: "string \<Rightarrow> world \<Rightarrow> world" where
  "py_print s w = w\<lparr>trace := trace w @ [Print s]\<rparr>"

definition time_sleep :: "int \<Rightarrow> world \<Rightarrow> world" where
  "time_sleep d w = w\<lparr>now := now w + real_of_int d, trace := trace w @ [Sleep d]\<rparr>"

text \<open>\<^verbatim>\<open>random.randint(lo, hi)\<close>: a fresh draw, in \<open>lo..hi\<close>.\<close>

definition randint :: "int \<Rightarrow> int \<Rightarrow> world \<Rightarrow> int \<times> world" where
  "randint lo hi w =
     (lo + int (draws w (drawn w) mod nat (hi - lo + 1)), w\<lparr>drawn := drawn w + 1\<rparr>)"

text \<open>
  \<^verbatim>\<open>run_cmd(cmd, capture_output=...)\<close>: \<^verbatim>\<open>subprocess.run\<close> with \<^verbatim>\<open>check=False\<close>, so a
  non-zero return code is returned, not raised. No call of the source passes a timeout.
  Without \<^verbatim>\<open>capture_output\<close> the result holds no output.
\<close>

definition run_cmd :: "string list \<Rightarrow> bool \<Rightarrow> world \<Rightarrow> (py_exception + completed_process) \<times> world" where
  "run_cmd cmd capture_output w =
     (let r = replies w (calls w);
          w' = w\<lparr>now := now w + real (lag_ms r) / 1000, calls := calls w + 1,
                 trace := trace w @ [Run cmd]\<rparr>
      in (case outcome r of
            Inl e \<Rightarrow> (Inl e, w')
          | Inr p \<Rightarrow>
              (Inr (if capture_output then p else p\<lparr>stdout := None, stderr := None\<rparr>), w')))"

subsection \<open>list_adb_devices\<close>

text \<open>The loop over \<^verbatim>\<open>lines[1:]\<close>, from the text of \<^verbatim>\<open>r.stdout or ""\<close>.\<close>

definition add_device :: "string \<Rightarrow> string set \<Rightarrow> string set" where
  "add_device line devs =
     (let parts = split line
      in if length parts \<ge> 2 \<and> parts ! 1 = ''device'' then insert (parts ! 0) devs else devs)"

definition parse_devices :: "string \<Rightarrow> string set" where
  "parse_devices out = fold add_device (drop 1 (splitlines (strip out))) {}"

definition list_adb_devices :: "world \<Rightarrow> string set \<times> world" where
  "list_adb_devices w =
     (case run_cmd [''adb'', ''devices''] True w of
        (Inl e, w') \<Rightarrow> ({}, w')
      | (Inr r, w') \<Rightarrow>
          (parse_devices (case stdout r of None \<Rightarrow> [] | Some s \<Rightarrow> s), w'))"

subsection \<open>find_free_emulator_port\<close>

definition serial_of :: "int \<Rightarrow> string" where
  "serial_of port = ''emulator-'' @ str_int port"

text \<open>The \<^verbatim>\<open>for\<close> loop over the range, with the \<^verbatim>\<open>raise\<close> after it.\<close>

fun first_free :: "string set \<Rightarrow> int list \<Rightarrow> py_exception + int" where
  "first_free occupied_serials [] = Inl (RuntimeError ''No free emulator ports available'')"
| "first_free occupied_serials (port # rest) =
     (if serial_of port \<notin> occupied_serials then Inr port
      else first_free occupied_serials rest)"

definition find_free_emulator_port :: "string set \<Rightarrow> py_exception + int" where
  "find_free_emulator_port occupied_serials = first_free occupied_serials (py_range 5554 5684 2)"

subsection \<open>The readiness waiter\<close>

text \<open>
  \<^verbatim>\<open>wait_for_serial\<close>: \<open>start\<close> is the clock read on entry, and the loop reads the
  clock again before every poll. Each unsuccessful poll is followed by \<^verbatim>\<open>time.sleep(2)\<close>,
  so the clock advances and the loop ends.
\<close>

function wait_for_serial_loop :: "string \<Rightarrow> int \<Rightarrow> real \<Rightarrow> world \<Rightarrow> (py_exception + bool) \<times> world" where
  "wait_for_serial_loop serial timeout start w =
     (if now w - start < real_of_int timeout then
        (case list_adb_devices w of
           (devs, w1) \<Rightarrow>
             if serial \<in> devs then (Inr True, w1)
             else wait_for_serial_loop serial timeout start (time_sleep 2 w1))
      else (Inl (TimeoutError (serial @ '' did not appear in adb devices within ''
                  @ str_int timeout @ ''s'')), w))"
  by pat_completeness auto
termination
  by (relation "measure (\<lambda>(serial, timeout, start, w). nat \<lceil>real_of_int timeout - (now w - start)\<rceil>)")
    (auto simp: list_adb_devices_def run_cmd_def time_sleep_def Let_def split: sum.splits, linarith+)

declare wait_for_serial_loop.simps [simp del]

definition wait_for_serial :: "string \<Rightarrow> int \<Rightarrow> world \<Rightarrow> (py_exception + bool) \<times> world" where
  "wait_for_serial serial timeout w = wait_for_serial_loop serial timeout (now w) w"

text \<open>The test \<^verbatim>\<open>r.stdout and r.stdout.strip() == "1"\<close>.\<close>

definition boot_completed :: "completed_process \<Rightarrow> bool" where
  "boot_completed r = (case stdout r of None \<Rightarrow> False | Some s \<Rightarrow> s \<noteq> [] \<and> strip s = ''1'')"

definition getprop_cmd :: "string \<Rightarrow> string list" where
  "getprop_cmd serial = [''adb'', ''-s'', serial, ''shell'', ''getprop'', ''sys.boot_completed'']"

text \<open>
  \<^verbatim>\<open>wait_for_boot_complete\<close>: an exception of the query is caught inside the loop
  (\<^verbatim>\<open>except Exception: pass\<close>) and the loop goes on to \<^verbatim>\<open>time.sleep(2)\<close>.
\<close>

function wait_for_boot_complete_loop :: "string \<Rightarrow> int \<Rightarrow> real \<Rightarrow> world \<Rightarrow> (py_exception + bool) \<times> world" where
  "wait_for_boot_complete_loop serial timeout start w =
     (if now w - start < real_of_int timeout then
        (case run_cmd (getprop_cmd serial) True w of
           (Inr r, w1) \<Rightarrow>
             if boot_completed r
             then (Inr True, py_print (''[boot] '' @ serial @ '' boot complete.'') w1)
             else wait_for_boot_complete_loop serial timeout start (time_sleep 2 w1)
         | (Inl e, w1) \<Rightarrow> wait_for_boot_complete_loop serial timeout start (time_sleep 2 w1))
      else (Inl (TimeoutError (serial @ '' did not finish boot within ''
                  @ str_int timeout @ ''s'')), w))"
  by pat_completeness auto
termination
  by (relation "measure (\<lambda>(serial, timeout, start, w). nat \<lceil>real_of_int timeout - (now w - start)\<rceil>)")
    (auto simp: run_cmd_def time_sleep_def Let_def split: sum.splits, linarith+)

declare wait_for_boot_complete_loop.simps [simp del]

definition wait_for_boot_complete :: "string \<Rightarrow> int \<Rightarrow> world \<Rightarrow> (py_exception + bool) \<times> world" where
  "wait_for_boot_complete serial timeout w = wait_for_boot_complete_loop serial timeout (now w) w"

subsection \<open>start_emulator_detached\<close>

text \<open>
  The message is printed first; then the log file is opened and the process started,
  which \<open>popen_fault\<close> makes fail. The result is the process, known by its command
  line, and the path of its log file in \<^verbatim>\<open>./emulator_logs\<close>.
\<close>

definition emulator_cmd :: "string \<Rightarrow> int \<Rightarrow> string list" where
  "emulator_cmd avd_name port =
     [''emulator'', ''-avd'', avd_name, ''-port'', str_int port, ''-no-snapshot-load'']"

definition start_emulator_detached ::
    "string \<Rightarrow> int \<Rightarrow> world \<Rightarrow> (py_exception + string list \<times> string) \<times> world" where
  "start_emulator_detached avd_name port w =
     (let logfile = ''emulator_logs/'' @ avd_name @ ''.log'';
          cmd = emulator_cmd avd_name port;
          w1 = py_print (''[start] '' @ avd_name @ '' port='' @ str_int port @ '' -> ''
                 @ repr_list cmd) w
      in (case popen_fault w1 of
            Some e \<Rightarrow> (Inl e, w1)
          | None \<Rightarrow> (Inr (cmd, logfile), w1\<lparr>trace := trace w1 @ [Popen cmd]\<rparr>)))"

subsection \<open>open_cpi_and_install\<close>

text \<open>
  The three commands and the sequence around them. An exception of a command leaves the
  function at that point; a result is never looked at, but for the output of the install
  command, which is printed.
\<close>

definition view_cmd :: "string \<Rightarrow> string \<Rightarrow> string list" where
  "view_cmd serial url =
     [''adb'', ''-s'', serial, ''shell'', ''am'', ''start'', ''-a'',
      ''android.intent.action.VIEW'', ''-d'', url]"

definition install_cmd :: "string \<Rightarrow> string \<Rightarrow> string list" where
  "install_cmd serial apk_path = [''adb'', ''-s'', serial, ''install'', ''-r'', apk_path]"

definition monkey_cmd :: "string \<Rightarrow> string \<Rightarrow> string list" where
  "monkey_cmd serial package_name =
     [''adb'', ''-s'', serial, ''shell'', ''monkey'', ''-p'', package_name, ''-c'',
      ''android.intent.category.LAUNCHER'', ''1'']"

definition open_cpi_and_install ::
    "string \<Rightarrow> string \<Rightarrow> string \<Rightarrow> int \<Rightarrow> world \<Rightarrow> (py_exception + unit) \<times> world" where
  "open_cpi_and_install serial apk_path package_name run_time w =
     (case randint 100000 200000 w of
        (user_id, w1) \<Rightarrow>
          let url = replace BASE_URL ''{userId}'' (str_int user_id);
              w2 = py_print (''[task] '' @ serial @ '' opening CPI link: '' @ url) w1
          in (case run_cmd (view_cmd serial url) False w2 of
                (Inl e, w3) \<Rightarrow> (Inl e, w3)
              | (Inr r1, w3) \<Rightarrow>
                  let w4 = time_sleep 30 w3;
                      w5 = py_print (''[task] '' @ serial @ '' installing APK: '' @ apk_path) w4
                  in (case run_cmd (install_cmd serial apk_path) True w5 of
                        (Inl e, w6) \<Rightarrow> (Inl e, w6)
                      | (Inr r, w6) \<Rightarrow>
                          let w7 = py_print (''[adb install] '' @ serial @ '' stdout: ''
                                     @ str_opt (stdout r) @ ''; stderr: '' @ str_opt (stderr r)) w6;
                              w8 = time_sleep 10 w7;
                              w9 = py_print (''[task] '' @ serial @ '' launching app ''
                                     @ package_name) w8
                          in (case run_cmd (monkey_cmd serial package_name) False w9 of
                                (Inl e, w10) \<Rightarrow> (Inl e, w10)
                              | (Inr r3, w10) \<Rightarrow>
                                  let w11 = py_print (''[task] '' @ serial @ '' keeping app open for ''
                                              @ str_int run_time @ ''s'') w10;
                                      w12 = time_sleep run_time w11;
                                      w13 = py_print (''[task] '' @ serial @ '' finished workflow.'') w12
                                  in (Inr (), w13)))))"

subsection \<open>instance_worker\<close>

text \<open>The dictionary \<^verbatim>\<open>proc_holder\<close>, with its two keys.\<close>

record proc_holder =
  proc :: "string list option"
  log :: "string option"

definition sem_acquire :: "world \<Rightarrow> (py_exception + unit) \<times> world" where
  "sem_acquire w =
     (case acquire_fault w of
        Some e \<Rightarrow> (Inl e, w)
      | None \<Rightarrow> (Inr (), w\<lparr>trace := trace w @ [Acquire]\<rparr>))"

definition sem_release :: "world \<Rightarrow> world" where
  "sem_release w = w\<lparr>trace := trace w @ [Release]\<rparr>"

text \<open>
  The \<^verbatim>\<open>try\<close> block: its result, the flag \<^verbatim>\<open>acquired\<close>, the dictionary and the world
  at the point where the block is left.
\<close>

definition worker_try ::
    "string \<Rightarrow> int \<Rightarrow> world \<Rightarrow> (py_exception + unit) \<times> bool \<times> proc_holder \<times> world" where
  "worker_try avd_name port w =
     (case sem_acquire w of
        (Inl e, w0) \<Rightarrow> (Inl e, False, \<lparr>proc = None, log = None\<rparr>, w0)
      | (Inr u, w0) \<Rightarrow>
          (case start_emulator_detached avd_name port w0 of
             (Inl e, w1) \<Rightarrow> (Inl e, True, \<lparr>proc = None, log = None\<rparr>, w1)
           | (Inr (p, logfile), w1) \<Rightarrow>
               let holder = \<lparr>proc = Some p, log = Some logfile\<rparr>;
                   serial = serial_of port;
                   w2 = py_print (''[worker] Waiting for serial '' @ serial @ '' to appear.'') w1
               in (case wait_for_serial serial BOOT_TIMEOUT w2 of
                     (Inl e, w3) \<Rightarrow> (Inl e, True, holder, w3)
                   | (Inr b, w3) \<Rightarrow>
                       let w4 = py_print (''[worker] '' @ serial @ '' present - waiting for boot.'') w3
                       in (case wait_for_boot_complete serial BOOT_TIMEOUT w4 of
                             (Inl e, w5) \<Rightarrow> (Inl e, True, holder, w5)
                           | (Inr b', w5) \<Rightarrow>
                               (case open_cpi_and_install serial APK_PATH PACKAGE_NAME RUN_TIME w5 of
                                  (r, w6) \<Rightarrow> (r, True, holder, w6))))))"

text \<open>
  \<open>escaped\<close> is the exception that leaves the thread's target, if any; \<open>holder\<close> and
  \<open>final\<close> are the dictionary and the world when the worker ends. The clause
  \<^verbatim>\<open>except Exception\<close> catches every exception of the \<^verbatim>\<open>try\<close> block and prints it; the
  clause \<^verbatim>\<open>finally\<close> releases the semaphore if \<^verbatim>\<open>acquired\<close> is set.
\<close>

record worker_result =
  escaped :: "py_exception option"
  holder :: proc_holder
  final :: world

definition instance_worker :: "string \<Rightarrow> int \<Rightarrow> world \<Rightarrow> worker_result" where
  "instance_worker avd_name port w =
     (case worker_try avd_name port w of
        (r, acquired, h, w1) \<Rightarrow>
          let w2 = (case r of
                      Inl e \<Rightarrow> py_print (''[ERROR] instance '' @ avd_name @ '' (port ''
                                @ str_int port @ '') failed: '' @ str_exception e) w1
                    | Inr u \<Rightarrow> w1);
              w3 = (if acquired then sem_release w2 else w2)
          in \<lparr>escaped = None, holder = h, final = w3\<rparr>)"

subsection \<open>main\<close>

definition avd_names :: "int \<Rightarrow> string list" where
  "avd_names total' = map (\<lambda>i. BASE_AVD @ ''_copy'' @ str_int (i + 1)) (py_range 0 total' 1)"

text \<open>
  \<^verbatim>\<open>fresh_clone_avd\<close> copies and rewrites files of the AVD directory; the model keeps
  whether it raises, and the event \<open>Clone\<close> stands for its work on the file system.
\<close>

definition fresh_clone_avd :: "string \<Rightarrow> world \<Rightarrow> (py_exception + unit) \<times> world" where
  "fresh_clone_avd new_name w =
     (case clone_fault w new_name of
        Some e \<Rightarrow> (Inl e, w)
      | None \<Rightarrow> (Inr (), w\<lparr>trace := trace w @ [Clone new_name]\<rparr>))"

fun clone_all :: "string list \<Rightarrow> world \<Rightarrow> (py_exception + unit) \<times> world" where
  "clone_all [] w = (Inr (), w)"
| "clone_all (name # names) w =
     (case fresh_clone_avd name w of
        (Inl e, w1) \<Rightarrow> (Inl e, w1)
      | (Inr u, w1) \<Rightarrow> clone_all names w1)"

text \<open>
  The reservation loop \<^verbatim>\<open>for _ in avd_names\<close>: one port for each name, found among
  the ports whose serial is neither in \<open>existing\<close> nor reserved before.
\<close>

fun reserve_ports :: "string set \<Rightarrow> string list \<Rightarrow> int list \<Rightarrow> py_exception + int list" where
  "reserve_ports existing [] reserved_ports = Inr reserved_ports"
| "reserve_ports existing (name # names) reserved_ports =
     (case find_free_emulator_port (existing \<union> serial_of ` set reserved_ports) of
        Inl e \<Rightarrow> Inl e
      | Inr port \<Rightarrow> reserve_ports existing names (reserved_ports @ [port]))"

text \<open>The plans of a run: \<^verbatim>\<open>zip(avd_names, reserved_ports)\<close>.\<close>

definition allocate :: "int \<Rightarrow> string set \<Rightarrow> py_exception + (string \<times> int) list" where
  "allocate total' existing =
     (case reserve_ports existing (avd_names total') [] of
        Inl e \<Rightarrow> Inl e
      | Inr reserved_ports \<Rightarrow> Inr (zip (avd_names total') reserved_ports))"

text \<open>
  The loop that starts the threads. The i-th worker runs \<open>instance_worker\<close> in its own
  world \<open>ws i\<close>: what that thread observes of the clock and of its commands.
\<close>

fun start_workers ::
    "(string \<times> int) list \<Rightarrow> nat \<Rightarrow> (nat \<Rightarrow> world) \<Rightarrow> world \<Rightarrow> worker_result list \<times> world" where
  "start_workers [] i ws w = ([], w)"
| "start_workers ((name, port) # rest) i ws w =
     (let w1 = w\<lparr>trace := trace w @ [Start_thread name port]\<rparr>;
          res = instance_worker name port (ws i);
          w2 = time_sleep 1 w1
      in (case start_workers rest (i + 1) ws w2 of (rs, w3) \<Rightarrow> (res # rs, w3)))"

fun join_all :: "(string \<times> int) list \<Rightarrow> world \<Rightarrow> world" where
  "join_all [] w = w"
| "join_all ((name, port) # rest) w = join_all rest (w\<lparr>trace := trace w @ [Join_thread name]\<rparr>)"

text \<open>
  The loop of the branch \<^verbatim>\<open>KEEP_EMULATORS = False\<close>; an exception of the kill command
  leads to \<^verbatim>\<open>proc.terminate()\<close>, whose own exception is dropped.
\<close>

fun terminate_all :: "((string \<times> int) \<times> proc_holder) list \<Rightarrow> world \<Rightarrow> world" where
  "terminate_all [] w = w"
| "terminate_all (((name, port), info) # rest) w =
     (case proc info of
        Some p \<Rightarrow>
          if running w p then
            (case run_cmd [''adb'', ''-s'', serial_of port, ''emu'', ''kill''] False w of
               (Inl e, w1) \<Rightarrow> terminate_all rest (w1\<lparr>trace := trace w1 @ [Terminate p]\<rparr>)
             | (Inr r, w1) \<Rightarrow> terminate_all rest w1)
          else terminate_all rest w
      | None \<Rightarrow> terminate_all rest w)"

text \<open>
  How the process ends: with an exit code (\<^verbatim>\<open>sys.exit(1)\<close>, or 0 when \<open>main\<close>
  returns), or with an exception that nothing catches.
\<close>

datatype exit_status = Exit int | Uncaught py_exception

record run_result =
  status :: exit_status
  workers :: "worker_result list"
  out :: world

text \<open>
  \<open>requested\<close> is the value of \<^verbatim>\<open>int(input(...).strip() or "1")\<close>, or the exception
  it raises.
\<close>

definition main :: "(py_exception + int) \<Rightarrow> (nat \<Rightarrow> world) \<Rightarrow> world \<Rightarrow> run_result" where
  "main requested ws w =
     (case requested of
        Inl e \<Rightarrow> \<lparr>status = Exit 1, workers = [], out = py_print ''Invalid number.'' w\<rparr>
      | Inr total' \<Rightarrow>
          if total' < 1
          then \<lparr>status = Exit 1, workers = [], out = py_print ''At least 1 instance required.'' w\<rparr>
          else
            (case clone_all (avd_names total') (py_print ''[step] Preparing clones...'' w) of
               (Inl e, w2) \<Rightarrow> \<lparr>status = Uncaught e, workers = [], out = w2\<rparr>
             | (Inr u, w2) \<Rightarrow>
                 (case list_adb_devices w2 of
                    (existing, w3) \<Rightarrow>
                      (case allocate total' existing of
                         Inl e \<Rightarrow> \<lparr>status = Uncaught e, workers = [], out = w3\<rparr>
                       | Inr plans \<Rightarrow>
                           (case start_workers plans 0 ws w3 of
                              (results, w4) \<Rightarrow>
                                let w5 = join_all plans w4;
                                    w6 = py_print ''All instance threads finished.'' w5;
                                    w7 = (if KEEP_EMULATORS
                                          then py_print (''Emulators were left running. To clean up later, use ''
                                                 @ [CHR 0x27] @ ''adb -s emulator-<port> emu kill''
                                                 @ [CHR 0x27] @ '' or delete clones.'') w6
                                          else terminate_all (zip plans (map holder results))
                                                 (py_print ''Attempting to terminate emulators we started...'' w6));
                                    w8 = py_print ''Script complete.'' w7
                                in \<lparr>status = Exit 0, workers = results, out = w8\<rparr>)))))"

subsection \<open>Notions used in the statements\<close>

text \<open>
  The free ports of a snapshot: the even ports of the range 5554..5682 whose serial
  is not among the endpoints that were live before the run.
\<close>

definition free_ports :: "string set \<Rightarrow> int set" where
  "free_ports existing = {p. 5554 \<le> p \<and> p \<le> 5682 \<and> even p \<and> serial_of p \<notin> existing}"


text \<open>
  A world for the examples: no \<^verbatim>\<open>adb\<close> on the path, so that every command raises,
  and no other fault.
\<close>

definition offline_world :: world where
  "offline_world =
     \<lparr>now = 0,
      replies = (\<lambda>k. \<lparr>outcome = Inl (FileNotFoundError ''adb''), lag_ms = 0\<rparr>),
      calls = 0, draws = (\<lambda>k. 0), drawn = 0, popen_fault = None, acquire_fault = None,
      clone_fault = (\<lambda>name. None), running = (\<lambda>p. False), trace = []\<rparr>"


subsection \<open>Polls of the waiting loops\<close>

text \<open>What \<open>list_adb_devices\<close> makes of one reply: the endpoints it reports.\<close>

definition reply_devices :: "reply \<Rightarrow> string set" where
  "reply_devices r =
     (case outcome r of
        Inl e \<Rightarrow> {}
      | Inr p \<Rightarrow> parse_devices (case stdout p of None \<Rightarrow> [] | Some s \<Rightarrow> s))"

text \<open>Whether the boot loop accepts one reply of its query.\<close>

definition reply_booted :: "reply \<Rightarrow> bool" where
  "reply_booted r = (case outcome r of Inl e \<Rightarrow> False | Inr p \<Rightarrow> boot_completed p)"

text \<open>One poll of the boot loop: the query and the test of its result.\<close>

definition boot_query :: "string \<Rightarrow> world \<Rightarrow> bool" where
  "boot_query serial w =
     (case fst (run_cmd (getprop_cmd serial) True w) of
        Inl e \<Rightarrow> False
      | Inr p \<Rightarrow> boot_completed p)"

text \<open>
  The clock at the loop test before poll \<open>n\<close> (counted from 0) of a waiting loop that
  starts in \<open>w\<close>, when the polls before it did not end the loop: each of them took the
  lag of its command and the two seconds of \<^verbatim>\<open>time.sleep(2)\<close>.
\<close>

fun poll_time :: "world \<Rightarrow> nat \<Rightarrow> real" where
  "poll_time w 0 = now w"
| "poll_time w (Suc n) = poll_time w n + real (lag_ms (replies w (calls w + n))) / 1000 + 2"

text \<open>
  The world after \<open>n\<close> polls of a waiting loop that did not end it: each runs the
  command and sleeps two seconds.
\<close>

fun skip_polls :: "string list \<Rightarrow> nat \<Rightarrow> world \<Rightarrow> world" where
  "skip_polls cmd 0 w = w"
| "skip_polls cmd (Suc n) w = skip_polls cmd n (time_sleep 2 (snd (run_cmd cmd True w)))"

subsection \<open>Worlds of the examples\<close>

definition header :: string where
  "header = ''List of devices attached'' @ [CHR 0x0A]"

text \<open>Outputs of \<^verbatim>\<open>adb devices\<close> and worlds for the examples.\<close>

definition listing :: string where
  "listing = ''List of devices attached'' @ [CHR 0x0A] @ ''emulator-5554'' @ [CHR 0x09]
      @ ''device'' @ [CHR 0x0A, CHR 0x0A]"

definition said :: "string \<Rightarrow> reply" where
  "said s = \<lparr>outcome = Inr \<lparr>returncode = 0, stdout = Some s, stderr = Some []\<rparr>, lag_ms = 500\<rparr>"

definition appearing_world :: world where
  "appearing_world =
     offline_world\<lparr>replies := (\<lambda>k. if k < 2 then said header else said listing)\<rparr>"

definition booting_world :: world where
  "booting_world =
     offline_world\<lparr>replies :=
       (\<lambda>k. if k < 2 then \<lparr>outcome = Inl (OtherException ''device offline''), lag_ms = 500\<rparr>
            else if k = 2 then said ''0'' else said ''1'')\<rparr>"


subsection \<open>Events of the semaphore\<close>

text \<open>
  A list of events without \<open>Acquire\<close> and \<open>Release\<close>; a world that has grown from
  another by such events.
\<close>

definition sem_free :: "event list \<Rightarrow> bool" where
  "sem_free es \<longleftrightarrow> Acquire \<notin> set es \<and> Release \<notin> set es"

definition extends :: "world \<Rightarrow> world \<Rightarrow> bool" where
  "extends w w' \<longleftrightarrow> (\<exists>es. trace w' = trace w @ es \<and> sem_free es)"

subsection \<open>More worlds of the examples\<close>


definition broken_launch_world :: world where
  "broken_launch_world = offline_world\<lparr>popen_fault := Some (FileNotFoundError ''emulator'')\<rparr>"

definition interrupted_world :: world where
  "interrupted_world = offline_world\<lparr>acquire_fault := Some (OtherException ''interrupted'')\<rparr>"

subsection \<open>Workers that share the semaphore\<close>

text \<open>
  The events that one worker performs, in their order: what \<open>instance_worker\<close> adds
  to the trace of its world.
\<close>

definition worker_events :: "string \<Rightarrow> int \<Rightarrow> world \<Rightarrow> event list" where
  "worker_events avd_name port w =
     drop (length (trace w)) (trace (final (instance_worker avd_name port w)))"

text \<open>
  The threads of a run, as \<open>main\<close> starts them on one
  \<^verbatim>\<open>threading.Semaphore(CONCURRENT_LIMIT)\<close>: \<open>permits\<close> is the counter of the semaphore,
  and for each worker \<open>performed\<close> holds the events it has performed and \<open>pending\<close>
  those it has yet to perform.
\<close>

record pool =
  permits :: nat
  performed :: "event list list"
  pending :: "event list list"

definition start_pool :: "nat \<Rightarrow> (string \<times> int) list \<Rightarrow> (nat \<Rightarrow> world) \<Rightarrow> pool" where
  "start_pool n plans ws =
     \<lparr>permits = n,
      performed = map (\<lambda>p. []) plans,
      pending = map (\<lambda>(k, name, port). worker_events name port (ws k))
                  (zip [0..<length plans] plans)\<rparr>"

text \<open>
  One step of worker \<open>i\<close>: it performs its next event. \<^verbatim>\<open>acquire()\<close> waits while the
  counter is 0 (the step is not possible) and decrements it; \<^verbatim>\<open>release()\<close> increments
  it. A schedule is the list of the workers that step, in the order of their steps; a
  worker that \<open>main\<close> has not started yet has made no step.
\<close>

definition step :: "nat \<Rightarrow> pool \<Rightarrow> pool option" where
  "step i s =
     (if i < length (pending s) then
        (case pending s ! i of
           [] \<Rightarrow> None
         | e # rest \<Rightarrow>
             if e = Acquire \<and> permits s = 0 then None
             else Some \<lparr>permits = (if e = Acquire then permits s - 1
                                   else if e = Release then permits s + 1
                                   else permits s),
                        performed = (performed s)[i := performed s ! i @ [e]],
                        pending = (pending s)[i := rest]\<rparr>)
      else None)"

fun run :: "nat list \<Rightarrow> pool \<Rightarrow> pool option" where
  "run [] s = Some s"
| "run (i # sched) s = (case step i s of None \<Rightarrow> None | Some s' \<Rightarrow> run sched s')"

text \<open>
  A worker holds a token from its \<open>Acquire\<close> to its \<open>Release\<close>; it is active when it
  has started its emulator process (past the launch) and has events left to perform
  (before its end).
\<close>

fun is_Popen :: "event \<Rightarrow> bool" where
  "is_Popen (Popen cmd) = True"
| "is_Popen e = False"

definition holding :: "event list \<Rightarrow> bool" where
  "holding d \<longleftrightarrow> Acquire \<in> set d \<and> Release \<notin> set d"

definition active :: "event list \<Rightarrow> event list \<Rightarrow> bool" where
  "active d t \<longleftrightarrow> list_ex is_Popen d \<and> t \<noteq> []"

definition holders :: "pool \<Rightarrow> nat" where
  "holders s = length (filter holding (performed s))"

definition active_workers :: "pool \<Rightarrow> nat" where
  "active_workers s = length (filter (\<lambda>(d, t). active d t) (zip (performed s) (pending s)))"

text \<open>
  The events of a disciplined worker: either none of the semaphore and no launch, or
  \<open>Acquire\<close> first, \<open>Release\<close> last and neither in between. The invariant of the pool:
  every worker is disciplined, and the permits and the holders add up to the limit.
\<close>

definition disciplined :: "event list \<Rightarrow> bool" where
  "disciplined t \<longleftrightarrow>
     (sem_free t \<and> \<not> list_ex is_Popen t) \<or> (\<exists>mid. t = Acquire # mid @ [Release] \<and> sem_free mid)"

definition pool_inv :: "nat \<Rightarrow> pool \<Rightarrow> bool" where
  "pool_inv n s \<longleftrightarrow>
     list_all2 (\<lambda>d t. disciplined (d @ t)) (performed s) (pending s)
     \<and> permits s + holders s = n"

text \<open>Three plans for the example.\<close>

definition three_plans :: "(string \<times> int) list" where
  "three_plans = [(''MyAVD3_copy1'', 5554), (''MyAVD3_copy2'', 5556), (''MyAVD3_copy3'', 5558)]"

section \<open>Port allocation\<close>

subsection \<open>Decimal rendering is injective\<close>

lemma digit_char_inj: "d < 10 \<Longrightarrow> e < 10 \<Longrightarrow> digit_char d = digit_char e \<Longrightarrow> d = e"
  by (simp add: digit_char_def char_of_eq_iff take_bit_nat_eq_self)

lemma digit_char_not_minus: "d < 10 \<Longrightarrow> digit_char d \<noteq> CHR ''-''"
proof
  assume d: "d < 10" and "digit_char d = CHR ''-''"
  moreover have "CHR ''-'' = char_of (45::nat)" by code_simp
  ultimately have "char_of (48 + d) = (char_of (45::nat))" by (simp only: digit_char_def)
  then have "(of_char (char_of (48 + d)) :: nat) = of_char (char_of (45::nat))" by (rule arg_cong)
  then have "(48 + d) mod 256 = (45::nat) mod 256" by (simp only: of_char_of)
  with d show False by simp
qed

lemma str_nat_length_one: "length (str_nat n) = 1 \<longleftrightarrow> n < 10"
proof (cases "n < 10")
  case True
  then show ?thesis by (simp add: str_nat.simps)
next
  case False
  have "str_nat (n div 10) \<noteq> []" by (subst str_nat.simps) simp
  then have "length (str_nat (n div 10)) \<noteq> 0" by simp
  with False show ?thesis by (subst str_nat.simps) simp
qed

lemma str_nat_inj: "str_nat n = str_nat m \<Longrightarrow> n = m"
proof (induction n arbitrary: m rule: str_nat.induct)
  case (1 n)
  show ?case
  proof (cases "n < 10")
    case True
    then have "length (str_nat m) = 1" using "1.prems" str_nat_length_one[of n] by simp
    then have m: "m < 10" using str_nat_length_one[of m] by simp
    with True "1.prems" show ?thesis by (simp add: str_nat.simps digit_char_inj)
  next
    case False
    then have "length (str_nat m) \<noteq> 1" using "1.prems" str_nat_length_one[of n] by simp
    then have m: "\<not> m < 10" using str_nat_length_one[of m] by simp
    from False m "1.prems" have eq: "str_nat (n div 10) @ [digit_char (n mod 10)]
        = str_nat (m div 10) @ [digit_char (m mod 10)]"
      by (simp add: str_nat.simps[of n] str_nat.simps[of m])
    then have "str_nat (n div 10) = str_nat (m div 10)"
      and d: "digit_char (n mod 10) = digit_char (m mod 10)"
      by simp_all
    then have "n div 10 = m div 10" using "1.IH" False by blast
    moreover have "n mod 10 = m mod 10" using d by (intro digit_char_inj) simp_all
    ultimately show ?thesis by (metis div_mult_mod_eq)
  qed
qed

lemma str_nat_hd_not_minus: "hd (str_nat n) \<noteq> CHR ''-''"
proof (induction n rule: str_nat.induct)
  case (1 n)
  show ?case
  proof (cases "n < 10")
    case True
    then show ?thesis by (simp add: str_nat.simps digit_char_not_minus)
  next
    case False
    have "str_nat (n div 10) \<noteq> []" by (subst str_nat.simps) simp
    with False "1.IH" show ?thesis by (subst str_nat.simps) simp
  qed
qed

lemma str_nat_not_minus: "str_nat n \<noteq> CHR ''-'' # s"
  using str_nat_hd_not_minus[of n] by (metis list.sel(1))

lemma str_int_inj: "str_int i = str_int j \<Longrightarrow> i = j"
  using str_nat_not_minus str_nat_inj
  by (auto simp: str_int_def split: if_splits dest!: str_nat_inj) (metis str_nat_not_minus)+

lemma serial_of_inj: "serial_of p = serial_of q \<Longrightarrow> p = q"
  by (simp add: serial_of_def str_int_inj)

lemma serial_of_image_iff: "serial_of p \<in> serial_of ` A \<longleftrightarrow> p \<in> A"
  by (auto dest: serial_of_inj)

subsection \<open>The search for a free port\<close>

lemma port_range_eq: "py_range 5554 5684 2 = map (\<lambda>k. 5554 + 2 * int k) [0..<65]"
  by (simp add: py_range_def)

lemma port_range_set: "set (py_range 5554 5684 2) = {p. 5554 \<le> p \<and> p \<le> 5682 \<and> even p}"
proof (intro set_eqI iffI)
  fix p assume "p \<in> set (py_range 5554 5684 2)"
  then show "p \<in> {p. 5554 \<le> p \<and> p \<le> 5682 \<and> even p}"
    by (auto simp: port_range_eq)
next
  fix p :: int assume "p \<in> {p. 5554 \<le> p \<and> p \<le> 5682 \<and> even p}"
  then have p: "5554 \<le> p" "p \<le> 5682" "even p" by simp_all
  define k where "k = nat ((p - 5554) div 2)"
  have "p = 5554 + 2 * int k" using p by (auto simp: k_def elim!: evenE)
  moreover have "k < 65" using p by (simp add: k_def)
  ultimately show "p \<in> set (py_range 5554 5684 2)"
    by (auto simp: port_range_eq intro!: image_eqI[where x = k])
qed

lemma port_range_sorted: "sorted_wrt (<) (py_range 5554 5684 2)"
  by (simp add: port_range_eq sorted_wrt_map sorted_wrt_iff_nth_less)

lemma first_free_Inl:
  "first_free occ ps = Inl e \<Longrightarrow>
     (\<forall>q\<in>set ps. serial_of q \<in> occ) \<and> e = RuntimeError ''No free emulator ports available''"
  by (induction ps) (auto split: if_splits)

lemma first_free_Inr:
  "first_free occ ps = Inr p \<Longrightarrow>
     serial_of p \<notin> occ \<and> (\<exists>pre post. ps = pre @ p # post \<and> (\<forall>q\<in>set pre. serial_of q \<in> occ))"
proof (induction ps)
  case Nil
  then show ?case by simp
next
  case (Cons a ps)
  show ?case
  proof (cases "serial_of a \<notin> occ")
    case True
    with Cons.prems have ap: "a = p" by simp
    then have "a # ps = [] @ p # ps \<and> (\<forall>q\<in>set []. serial_of q \<in> occ)" by simp
    with True ap show ?thesis by blast
  next
    case False
    with Cons obtain pre post where "serial_of p \<notin> occ" "ps = pre @ p # post"
      "\<forall>q\<in>set pre. serial_of q \<in> occ" by auto
    with False have "a # ps = (a # pre) @ p # post \<and> (\<forall>q\<in>set (a # pre). serial_of q \<in> occ)"
      by simp
    with \<open>serial_of p \<notin> occ\<close> show ?thesis by blast
  qed
qed

lemma find_free_Inl:
  "find_free_emulator_port occ = Inl e \<longleftrightarrow>
     (\<forall>q. 5554 \<le> q \<and> q \<le> 5682 \<and> even q \<longrightarrow> serial_of q \<in> occ)
     \<and> e = RuntimeError ''No free emulator ports available''"
proof
  assume "find_free_emulator_port occ = Inl e"
  from first_free_Inl[OF this[unfolded find_free_emulator_port_def]]
  show "(\<forall>q. 5554 \<le> q \<and> q \<le> 5682 \<and> even q \<longrightarrow> serial_of q \<in> occ)
     \<and> e = RuntimeError ''No free emulator ports available''"
    by (simp add: port_range_set)
next
  assume a: "(\<forall>q. 5554 \<le> q \<and> q \<le> 5682 \<and> even q \<longrightarrow> serial_of q \<in> occ)
     \<and> e = RuntimeError ''No free emulator ports available''"
  show "find_free_emulator_port occ = Inl e"
  proof (cases "find_free_emulator_port occ")
    case (Inl e')
    with first_free_Inl[of occ _ e'] a show ?thesis by (simp add: find_free_emulator_port_def)
  next
    case (Inr p)
    from first_free_Inr[OF this[unfolded find_free_emulator_port_def]]
    have "serial_of p \<notin> occ" "p \<in> set (py_range 5554 5684 2)" by auto
    with a show ?thesis by (simp add: port_range_set)
  qed
qed

lemma find_free_Inr:
  assumes "find_free_emulator_port occ = Inr p"
  shows "5554 \<le> p \<and> p \<le> 5682 \<and> even p \<and> serial_of p \<notin> occ
     \<and> (\<forall>q. 5554 \<le> q \<and> q < p \<and> even q \<longrightarrow> serial_of q \<in> occ)"
proof -
  from first_free_Inr[OF assms[unfolded find_free_emulator_port_def]]
  obtain pre post where free: "serial_of p \<notin> occ" and eq: "py_range 5554 5684 2 = pre @ p # post"
    and pre: "\<forall>q\<in>set pre. serial_of q \<in> occ" by auto
  have mem: "p \<in> set (py_range 5554 5684 2)" by (simp add: eq)
  then have range: "5554 \<le> p \<and> p \<le> 5682 \<and> even p" by (simp add: port_range_set)
  have "serial_of q \<in> occ" if q: "5554 \<le> q" "q < p" "even q" for q
  proof -
    from q range have "q \<in> set (py_range 5554 5684 2)" by (simp add: port_range_set)
    then have "q \<in> set pre \<or> q = p \<or> q \<in> set post" by (auto simp: eq)
    moreover have "\<forall>y\<in>set post. p < y"
      using port_range_sorted by (simp add: eq sorted_wrt_append)
    ultimately have "q \<in> set pre" using q by auto
    with pre show ?thesis by simp
  qed
  with free range show ?thesis by blast
qed

subsection \<open>The reservation loop\<close>

lemma reserve_ports_Inr:
  "reserve_ports ex names res = Inr ports \<Longrightarrow>
     \<exists>new. ports = res @ new \<and> length new = length names \<and>
       (\<forall>i<length new.
          find_free_emulator_port (ex \<union> serial_of ` set (res @ take i new)) = Inr (new ! i))"
proof (induction names arbitrary: res)
  case Nil
  then show ?case by simp
next
  case (Cons name names)
  from Cons.prems obtain port where
    port: "find_free_emulator_port (ex \<union> serial_of ` set res) = Inr port"
    and rest: "reserve_ports ex names (res @ [port]) = Inr ports"
    by (auto split: sum.splits)
  from Cons.IH[OF rest] obtain new where new: "ports = (res @ [port]) @ new"
    "length new = length names"
    "\<forall>i<length new.
        find_free_emulator_port (ex \<union> serial_of ` set ((res @ [port]) @ take i new)) = Inr (new ! i)"
    by blast
  have "find_free_emulator_port (ex \<union> serial_of ` set (res @ take i (port # new)))
          = Inr ((port # new) ! i)" if "i < length (port # new)" for i
  proof (cases i)
    case 0
    with port show ?thesis by simp
  next
    case (Suc j)
    with that new(3) show ?thesis by simp
  qed
  with new(1,2) have "ports = res @ (port # new) \<and> length (port # new) = length (name # names) \<and>
       (\<forall>i<length (port # new).
          find_free_emulator_port (ex \<union> serial_of ` set (res @ take i (port # new)))
            = Inr ((port # new) ! i))"
    by simp
  then show ?case by blast
qed

lemma reserve_ports_Inl:
  "reserve_ports ex names res = Inl e \<Longrightarrow> e = RuntimeError ''No free emulator ports available''"
proof (induction names arbitrary: res)
  case Nil
  then show ?case by simp
next
  case (Cons name names)
  then show ?case by (auto split: sum.splits simp: find_free_Inl)
qed

lemma finite_free_ports: "finite (free_ports ex)"
proof -
  have "free_ports ex \<subseteq> {5554..5682}" by (auto simp: free_ports_def)
  then show ?thesis by (rule finite_subset) simp
qed

lemma reserve_ports_succeeds_iff:
  assumes "set res \<subseteq> free_ports ex" and "distinct res"
  shows "(\<exists>ports. reserve_ports ex names res = Inr ports)
           \<longleftrightarrow> length res + length names \<le> card (free_ports ex)"
  using assms
proof (induction names arbitrary: res)
  case Nil
  have "card (set res) \<le> card (free_ports ex)"
    using Nil.prems(1) finite_free_ports by (rule card_mono[rotated])
  with Nil.prems(2) show ?case by (simp add: distinct_card)
next
  case (Cons name names)
  show ?case
  proof (cases "find_free_emulator_port (ex \<union> serial_of ` set res)")
    case (Inl e)
    then have "\<forall>q. 5554 \<le> q \<and> q \<le> 5682 \<and> even q \<longrightarrow> serial_of q \<in> ex \<union> serial_of ` set res"
      by (simp add: find_free_Inl)
    then have "free_ports ex \<subseteq> set res"
      by (auto simp: free_ports_def serial_of_image_iff)
    then have "card (free_ports ex) \<le> card (set res)" by (simp add: card_mono)
    also have "\<dots> \<le> length res" by (rule card_length)
    finally show ?thesis using Inl by simp
  next
    case (Inr port)
    from find_free_Inr[OF this] have "port \<in> free_ports ex" "port \<notin> set res"
      by (auto simp: free_ports_def)
    with Cons.prems have "set (res @ [port]) \<subseteq> free_ports ex" "distinct (res @ [port])"
      by auto
    from Cons.IH[OF this] Inr show ?thesis by simp
  qed
qed

lemma distinct_if_fresh: "(\<forall>i<length xs. xs ! i \<notin> set (take i xs)) \<Longrightarrow> distinct xs"
proof (induction xs rule: rev_induct)
  case Nil
  then show ?case by simp
next
  case (snoc x xs)
  have "\<forall>i<length xs. xs ! i \<notin> set (take i xs)"
  proof (intro allI impI)
    fix i assume i: "i < length xs"
    with snoc.prems have "(xs @ [x]) ! i \<notin> set (take i (xs @ [x]))" by simp
    with i show "xs ! i \<notin> set (take i xs)" by (simp add: nth_append)
  qed
  then have "distinct xs" by (rule snoc.IH)
  moreover have "(xs @ [x]) ! length xs \<notin> set (take (length xs) (xs @ [x]))"
    using snoc.prems[rule_format, of "length xs"] by simp
  then have "x \<notin> set xs" by simp
  ultimately show ?case by simp
qed

lemma avd_names_eq: "avd_names n = map (\<lambda>k. BASE_AVD @ ''_copy'' @ str_int (int k + 1)) [0..<nat n]"
  by (simp add: avd_names_def py_range_def comp_def)

lemma length_avd_names: "length (avd_names n) = nat n"
  by (simp add: avd_names_eq)

lemma distinct_avd_names: "distinct (avd_names n)"
  unfolding avd_names_eq
  by (rule distinct_map[THEN iffD2]) (auto intro!: inj_onI dest!: str_int_inj)

text \<open>
  Claim C1, as amended. For a requested total of at least 1 and any snapshot of live
  endpoints, the allocation step either fails with the error
  \<^verbatim>\<open>No free emulator ports available\<close>, which happens exactly when fewer than
  \<open>total\<close> ports of the range are free in the snapshot, or it returns exactly \<open>total\<close>
  plans with pairwise distinct identities and pairwise distinct ports, where the port of
  each plan is even, lies in 5554..5682, has a serial that is neither in the snapshot
  nor reserved by an earlier plan, and is the smallest such port.
\<close>

theorem allocate_plans:
  assumes "1 \<le> total'"
  shows "case allocate total' existing of
           Inl e \<Rightarrow>
             e = RuntimeError ''No free emulator ports available''
             \<and> card (free_ports existing) < nat total'
         | Inr plans \<Rightarrow>
             nat total' \<le> card (free_ports existing)
             \<and> length plans = nat total'
             \<and> distinct (map fst plans)
             \<and> distinct (map snd plans)
             \<and> (\<forall>i<length plans.
                  5554 \<le> snd (plans ! i) \<and> snd (plans ! i) \<le> 5682 \<and> even (snd (plans ! i))
                  \<and> serial_of (snd (plans ! i)) \<notin> existing \<union> serial_of ` snd ` set (take i plans)
                  \<and> (\<forall>q. 5554 \<le> q \<and> q < snd (plans ! i) \<and> even q \<longrightarrow>
                         serial_of q \<in> existing \<union> serial_of ` snd ` set (take i plans)))"
proof (cases "reserve_ports existing (avd_names total') []")
  case (Inl e)
  have "\<not> (\<exists>ports. reserve_ports existing (avd_names total') [] = Inr ports)"
    using Inl by simp
  then have "card (free_ports existing) < nat total'"
    using reserve_ports_succeeds_iff[of "[]" existing "avd_names total'"]
    by (simp add: length_avd_names)
  with Inl reserve_ports_Inl[OF Inl] show ?thesis by (simp add: allocate_def)
next
  case (Inr ports)
  from reserve_ports_Inr[OF this] have len: "length ports = nat total'"
    and each: "\<forall>i<length ports.
       find_free_emulator_port (existing \<union> serial_of ` set (take i ports)) = Inr (ports ! i)"
    by (auto simp: length_avd_names)
  define plans where "plans = zip (avd_names total') ports"
  have fst: "map fst plans = avd_names total'" and snd: "map snd plans = ports"
    and lenp: "length plans = nat total'"
    by (simp_all add: plans_def len length_avd_names)
  have card: "nat total' \<le> card (free_ports existing)"
    using reserve_ports_succeeds_iff[of "[]" existing "avd_names total'"] Inr
    by (simp add: length_avd_names)
  have ith: "5554 \<le> ports ! i \<and> ports ! i \<le> 5682 \<and> even (ports ! i)
        \<and> serial_of (ports ! i) \<notin> existing \<union> serial_of ` set (take i ports)
        \<and> (\<forall>q. 5554 \<le> q \<and> q < ports ! i \<and> even q \<longrightarrow>
               serial_of q \<in> existing \<union> serial_of ` set (take i ports))"
    if "i < length ports" for i
    using find_free_Inr[of "existing \<union> serial_of ` set (take i ports)" "ports ! i"] each that
    by blast
  have "\<forall>i<length ports. ports ! i \<notin> set (take i ports)"
    using ith by (auto simp: serial_of_image_iff)
  then have dist: "distinct ports" by (rule distinct_if_fresh)
  have nth: "snd (plans ! i) = ports ! i" and tk: "snd ` set (take i plans) = set (take i ports)"
    if "i < length plans" for i
  proof -
    show "snd (plans ! i) = ports ! i" using that snd by (metis nth_map)
    have "map snd (take i plans) = take i ports" by (simp add: take_map[symmetric] snd)
    then show "snd ` set (take i plans) = set (take i ports)" by (metis set_map)
  qed
  have "\<forall>i<length plans.
          5554 \<le> snd (plans ! i) \<and> snd (plans ! i) \<le> 5682 \<and> even (snd (plans ! i))
          \<and> serial_of (snd (plans ! i)) \<notin> existing \<union> serial_of ` snd ` set (take i plans)
          \<and> (\<forall>q. 5554 \<le> q \<and> q < snd (plans ! i) \<and> even q \<longrightarrow>
                 serial_of q \<in> existing \<union> serial_of ` snd ` set (take i plans))"
  proof (intro allI impI)
    fix i assume i: "i < length plans"
    then have "i < length ports" by (simp add: lenp len)
    from ith[OF this] show "5554 \<le> snd (plans ! i) \<and> snd (plans ! i) \<le> 5682 \<and> even (snd (plans ! i))
          \<and> serial_of (snd (plans ! i)) \<notin> existing \<union> serial_of ` snd ` set (take i plans)
          \<and> (\<forall>q. 5554 \<le> q \<and> q < snd (plans ! i) \<and> even q \<longrightarrow>
                 serial_of q \<in> existing \<union> serial_of ` snd ` set (take i plans))"
      unfolding nth[OF i] tk[OF i] by blast
  qed
  with card lenp dist show ?thesis
    using distinct_avd_names[of total']
    by (simp add: allocate_def Inr plans_def[symmetric] fst snd)
qed

subsection \<open>Examples of the allocation\<close>

lemma digit_chars:
  "digit_char 0 = CHR ''0''" "digit_char 1 = CHR ''1''" "digit_char 2 = CHR ''2''"
  "digit_char 3 = CHR ''3''" "digit_char 4 = CHR ''4''" "digit_char 5 = CHR ''5''"
  "digit_char 6 = CHR ''6''" "digit_char 7 = CHR ''7''" "digit_char 8 = CHR ''8''"
  "digit_char 9 = CHR ''9''" "digit_char (Suc 0) = CHR ''1''"
  by code_simp+

lemma find_free_InrI:
  assumes "5554 \<le> p" "p \<le> 5682" "even p" "serial_of p \<notin> occ"
    and below: "\<forall>q. 5554 \<le> q \<and> q < p \<and> even q \<longrightarrow> serial_of q \<in> occ"
  shows "find_free_emulator_port occ = Inr p"
proof (cases "find_free_emulator_port occ")
  case (Inl e)
  with assms(1-4) show ?thesis by (auto simp: find_free_Inl)
next
  case (Inr p')
  from find_free_Inr[OF this] have p': "5554 \<le> p'" "even p'" "serial_of p' \<notin> occ"
    and below': "\<forall>q. 5554 \<le> q \<and> q < p' \<and> even q \<longrightarrow> serial_of q \<in> occ"
    by blast+
  have "\<not> p' < p" using below p' by blast
  moreover have "\<not> p < p'" using below' assms(1,3,4) by blast
  ultimately show ?thesis using Inr by simp
qed

lemma serial_examples:
  "serial_of 5554 = ''emulator-5554''" "serial_of 5556 = ''emulator-5556''"
  "serial_of 5558 = ''emulator-5558''"
  by (simp_all add: serial_of_def str_int_def str_nat.simps digit_chars)

lemma upt_0_2: "[0..<2] = [0, 1]"
  by (simp add: upt_rec)

lemma avd_names_2: "avd_names 2 = [''MyAVD3_copy1'', ''MyAVD3_copy2'']"
  by (simp add: avd_names_eq upt_0_2 BASE_AVD_def str_int_def str_nat.simps digit_chars)

lemma find_free_example_1:
  "find_free_emulator_port ({''emulator-5554''} \<union> serial_of ` set []) = Inr 5556"
proof (rule find_free_InrI)
  show "\<forall>q. 5554 \<le> q \<and> q < 5556 \<and> even q \<longrightarrow>
      serial_of q \<in> {''emulator-5554''} \<union> serial_of ` set []"
  proof (intro allI impI)
    fix q :: int assume "5554 \<le> q \<and> q < 5556 \<and> even q"
    then have "q = 5554" by presburger
    then show "serial_of q \<in> {''emulator-5554''} \<union> serial_of ` set []"
      by (simp add: serial_examples)
  qed
qed (simp_all add: serial_examples)

lemma find_free_example_2:
  "find_free_emulator_port ({''emulator-5554''} \<union> serial_of ` set [5556]) = Inr 5558"
proof (rule find_free_InrI)
  show "\<forall>q. 5554 \<le> q \<and> q < 5558 \<and> even q \<longrightarrow>
      serial_of q \<in> {''emulator-5554''} \<union> serial_of ` set [5556]"
  proof (intro allI impI)
    fix q :: int assume "5554 \<le> q \<and> q < 5558 \<and> even q"
    then have "q = 5554 \<or> q = 5556" by presburger
    then show "serial_of q \<in> {''emulator-5554''} \<union> serial_of ` set [5556]"
      by (auto simp: serial_examples)
  qed
qed (simp_all add: serial_examples)

lemma allocate_example:
  "allocate 2 {''emulator-5554''} = Inr [(''MyAVD3_copy1'', 5556), (''MyAVD3_copy2'', 5558)]"
  using find_free_example_1 find_free_example_2
  by (simp add: allocate_def avd_names_2)

lemma card_free_ports_empty: "card (free_ports {}) = 65"
proof -
  have "free_ports {} = set (py_range 5554 5684 2)"
    by (simp add: free_ports_def port_range_set)
  moreover have "distinct (py_range 5554 5684 2)"
    using port_range_sorted by (simp add: strict_sorted_iff)
  ultimately have "card (free_ports {}) = length (py_range 5554 5684 2)"
    by (simp add: distinct_card)
  then show ?thesis by (simp add: port_range_eq)
qed

lemma allocate_Inl:
  "card (free_ports existing) < nat total' \<Longrightarrow>
     allocate total' existing = Inl (RuntimeError ''No free emulator ports available'')"
proof -
  assume less: "card (free_ports existing) < nat total'"
  show ?thesis
  proof (cases "reserve_ports existing (avd_names total') []")
    case (Inl e)
    with reserve_ports_Inl[OF Inl] show ?thesis by (simp add: allocate_def)
  next
    case (Inr ports)
    then have "nat total' \<le> card (free_ports existing)"
      using reserve_ports_succeeds_iff[of "[]" existing "avd_names total'"]
      by (simp add: length_avd_names)
    with less show ?thesis by simp
  qed
qed

text \<open>
  Claim C1 as stated fails: the range holds 65 ports, so a request for 66 instances on
  an empty snapshot yields no plans but the error.
\<close>

theorem allocate_all_counterexample:
  "allocate 66 {} = Inl (RuntimeError ''No free emulator ports available'')"
  by (rule allocate_Inl) (simp add: card_free_ports_empty)

text \<open>The theorem of claim C1 at a request for 2 instances while port 5554 is live.\<close>

theorem allocate_plans_witness:
  "(1::int) \<le> 2
   \<and> allocate 2 {''emulator-5554''} = Inr [(''MyAVD3_copy1'', 5556), (''MyAVD3_copy2'', 5558)]
   \<and> 2 \<le> card (free_ports {''emulator-5554''})
   \<and> distinct (map snd [(''MyAVD3_copy1'', 5556::int), (''MyAVD3_copy2'', 5558)])"
proof -
  have one: "(1::int) \<le> 2" by simp
  from allocate_plans[OF one, of "{''emulator-5554''}"]
  have "2 \<le> card (free_ports {''emulator-5554''})
     \<and> distinct (map snd [(''MyAVD3_copy1'', 5556::int), (''MyAVD3_copy2'', 5558)])"
    unfolding allocate_example sum.case by simp
  with allocate_example show ?thesis by simp
qed

subsection \<open>Exhaustion stops the run before any launch\<close>

lemma clone_all_Inr:
  "clone_all names w = (Inr u, w') \<Longrightarrow> w' = w\<lparr>trace := trace w @ map Clone names\<rparr>"
proof (induction names arbitrary: w)
  case Nil
  then show ?case by simp
next
  case (Cons name names)
  from Cons.prems have nf: "clone_fault w name = None"
    by (auto simp: fresh_clone_avd_def split: option.splits)
  with Cons.prems have "clone_all names (w\<lparr>trace := trace w @ [Clone name]\<rparr>) = (Inr u, w')"
    by (simp add: fresh_clone_avd_def)
  from Cons.IH[OF this] show ?case by simp
qed

lemma clone_all_no_fault:
  "\<forall>name\<in>set names. clone_fault w name = None \<Longrightarrow>
     clone_all names w = (Inr (), w\<lparr>trace := trace w @ map Clone names\<rparr>)"
proof (induction names arbitrary: w)
  case Nil
  then show ?case by simp
next
  case (Cons name names)
  then show ?case by (simp add: fresh_clone_avd_def)
qed

lemma list_adb_devices_world:
  "snd (list_adb_devices w) =
     w\<lparr>now := now w + real (lag_ms (replies w (calls w))) / 1000, calls := calls w + 1,
       trace := trace w @ [Run [''adb'', ''devices'']]\<rparr>"
  by (simp add: list_adb_devices_def run_cmd_def Let_def split: sum.splits)

text \<open>
  Claim C2. If the serials of all ports of the range are among the live endpoints of the
  snapshot and the ports reserved so far, the search for a further port fails with the
  error \<^verbatim>\<open>No free emulator ports available\<close>, and so does the reservation loop with a
  name left to serve. When the allocation of a run fails, \<open>main\<close> ends with that error
  uncaught, no worker was started, and the effects of the run are the message of the
  preparation, the clones and the one enumeration: no thread and no emulator process.
\<close>

theorem exhausted_before_launch:
  "((\<forall>p. 5554 \<le> p \<and> p \<le> 5682 \<and> even p \<longrightarrow>
        serial_of p \<in> existing \<union> serial_of ` set reserved_ports) \<longrightarrow>
      find_free_emulator_port (existing \<union> serial_of ` set reserved_ports)
        = Inl (RuntimeError ''No free emulator ports available'')
      \<and> reserve_ports existing (name # names) reserved_ports
        = Inl (RuntimeError ''No free emulator ports available''))
   \<and> (1 \<le> total'
      \<and> clone_all (avd_names total') (py_print ''[step] Preparing clones...'' w) = (Inr (), w2)
      \<and> list_adb_devices w2 = (found, w3)
      \<and> allocate total' found = Inl e \<longrightarrow>
      main (Inr total') ws w = \<lparr>status = Uncaught e, workers = [], out = w3\<rparr>
      \<and> trace w3 = trace w @ [Print ''[step] Preparing clones...''] @ map Clone (avd_names total')
           @ [Run [''adb'', ''devices'']])"
proof (intro conjI impI)
  assume occ: "\<forall>p. 5554 \<le> p \<and> p \<le> 5682 \<and> even p \<longrightarrow>
        serial_of p \<in> existing \<union> serial_of ` set reserved_ports"
  then show f: "find_free_emulator_port (existing \<union> serial_of ` set reserved_ports)
        = Inl (RuntimeError ''No free emulator ports available'')"
    by (simp only: find_free_Inl)
  then show "reserve_ports existing (name # names) reserved_ports
        = Inl (RuntimeError ''No free emulator ports available'')"
    by simp
next
  assume a: "1 \<le> total'
      \<and> clone_all (avd_names total') (py_print ''[step] Preparing clones...'' w) = (Inr (), w2)
      \<and> list_adb_devices w2 = (found, w3)
      \<and> allocate total' found = Inl e"
  then show "main (Inr total') ws w = \<lparr>status = Uncaught e, workers = [], out = w3\<rparr>"
    by (simp add: main_def)
  from a have "w2 = (py_print ''[step] Preparing clones...'' w)
      \<lparr>trace := trace (py_print ''[step] Preparing clones...'' w) @ map Clone (avd_names total')\<rparr>"
    using clone_all_Inr by blast
  moreover from a have "w3 = snd (list_adb_devices w2)" by simp
  ultimately show "trace w3 = trace w @ [Print ''[step] Preparing clones...'']
       @ map Clone (avd_names total') @ [Run [''adb'', ''devices'']]"
    by (simp add: list_adb_devices_world py_print_def)
qed

text \<open>
  The theorem of claim C2 where every port of the range is live, and for a run that
  requests 66 instances.
\<close>

theorem exhausted_before_launch_witness:
  "find_free_emulator_port (serial_of ` set (py_range 5554 5684 2) \<union> serial_of ` set [])
      = Inl (RuntimeError ''No free emulator ports available'')
   \<and> status (main (Inr 66) (\<lambda>i. offline_world) offline_world)
       = Uncaught (RuntimeError ''No free emulator ports available'')
   \<and> workers (main (Inr 66) (\<lambda>i. offline_world) offline_world) = []"
proof -
  let ?w1 = "py_print ''[step] Preparing clones...'' offline_world"
  let ?w2 = "?w1\<lparr>trace := trace ?w1 @ map Clone (avd_names 66)\<rparr>"
  have occ: "\<forall>p. 5554 \<le> p \<and> p \<le> 5682 \<and> even p \<longrightarrow>
      serial_of p \<in> serial_of ` set (py_range 5554 5684 2) \<union> serial_of ` set []"
    by (simp add: port_range_set)
  have c: "clone_all (avd_names 66) ?w1 = (Inr (), ?w2)"
    by (rule clone_all_no_fault) (simp add: py_print_def offline_world_def)
  have l: "list_adb_devices ?w2 = ({}, snd (list_adb_devices ?w2))"
    by (simp add: list_adb_devices_def run_cmd_def Let_def py_print_def offline_world_def)
  have a: "allocate 66 {} = Inl (RuntimeError ''No free emulator ports available'')"
    by (rule allocate_Inl) (simp add: card_free_ports_empty)
  have one: "(1::int) \<le> 66" by simp
  from exhausted_before_launch[of "serial_of ` set (py_range 5554 5684 2)" "[]" "''n''" "[]"
      66 offline_world ?w2 "{}" "snd (list_adb_devices ?w2)"
      "RuntimeError ''No free emulator ports available''" "\<lambda>i. offline_world"]
    occ c l a one
  show ?thesis by simp
qed

section \<open>The readiness waiter\<close>

subsection \<open>Effects of a command and of a run of polls\<close>

lemma run_cmd_snd:
  "snd (run_cmd cmd cap w) =
     w\<lparr>now := now w + real (lag_ms (replies w (calls w))) / 1000, calls := calls w + 1,
       trace := trace w @ [Run cmd]\<rparr>"
  by (simp add: run_cmd_def Let_def split: sum.splits)

lemma run_cmd_fst: "fst (run_cmd cmd True w) = outcome (replies w (calls w))"
  by (simp add: run_cmd_def Let_def split: sum.splits)

lemma list_adb_devices_eq:
  "list_adb_devices w =
     (reply_devices (replies w (calls w)), snd (run_cmd [''adb'', ''devices''] True w))"
  by (simp add: list_adb_devices_def reply_devices_def run_cmd_def Let_def split: sum.splits)

lemma poll_time_shift:
  "poll_time (time_sleep 2 (snd (run_cmd cmd cap w))) j = poll_time w (Suc j)"
  by (induction j) (simp_all add: run_cmd_snd time_sleep_def)

lemma poll_time_mono: "poll_time w n + 2 * real k \<le> poll_time w (n + k)"
  by (induction k) (simp_all add: algebra_simps)

lemma poll_time_le: "j \<le> n \<Longrightarrow> poll_time w j \<le> poll_time w n"
  using poll_time_mono[of w j "n - j"] by simp

lemma skip_polls_eq:
  "skip_polls cmd n w =
     w\<lparr>now := poll_time w n, calls := calls w + n,
       trace := trace w @ concat (replicate n [Run cmd, Sleep 2])\<rparr>"
proof (induction n arbitrary: w)
  case 0
  then show ?case by simp
next
  case (Suc n)
  have "concat (replicate n [Run cmd, Sleep 2]) @ [Run cmd, Sleep 2]
      = [Run cmd, Sleep 2] @ concat (replicate n [Run cmd, Sleep 2])"
    by (induction n) simp_all
  then show ?case
    by (simp add: Suc.IH poll_time_shift[simplified] run_cmd_snd time_sleep_def
        del: poll_time.simps)
      (simp add: poll_time_shift[of cmd True w, simplified run_cmd_snd time_sleep_def, simplified])
qed

lemma skip_polls_fields:
  "now (skip_polls cmd n w) = poll_time w n"
  "calls (skip_polls cmd n w) = calls w + n"
  "replies (skip_polls cmd n w) = replies w"
  "trace (skip_polls cmd n w) = trace w @ concat (replicate n [Run cmd, Sleep 2])"
  by (simp_all add: skip_polls_eq)

lemma skip_polls_Suc:
  "skip_polls cmd (Suc n) w = time_sleep 2 (snd (run_cmd cmd True (skip_polls cmd n w)))"
proof (induction n arbitrary: w)
  case 0
  then show ?case by simp
next
  case (Suc n)
  let ?p = "time_sleep 2 (snd (run_cmd cmd True w))"
  have "skip_polls cmd (Suc (Suc n)) w = skip_polls cmd (Suc n) ?p" by simp
  also have "\<dots> = time_sleep 2 (snd (run_cmd cmd True (skip_polls cmd n ?p)))"
    by (rule Suc.IH)
  also have "skip_polls cmd n ?p = skip_polls cmd (Suc n) w" by simp
  finally show ?case .
qed

subsection \<open>The two loops, poll by poll\<close>

lemma wait_for_serial_loop_skip:
  assumes "\<forall>j<n. poll_time w j - start < real_of_int timeout
             \<and> serial \<notin> reply_devices (replies w (calls w + j))"
  shows "wait_for_serial_loop serial timeout start w
           = wait_for_serial_loop serial timeout start (skip_polls [''adb'', ''devices''] n w)"
  using assms
proof (induction n)
  case 0
  then show ?case by simp
next
  case (Suc n)
  let ?v = "skip_polls [''adb'', ''devices''] n w"
  from Suc.prems have "poll_time w n - start < real_of_int timeout"
    and "serial \<notin> reply_devices (replies w (calls w + n))" by simp_all
  then have "wait_for_serial_loop serial timeout start ?v
      = wait_for_serial_loop serial timeout start
          (time_sleep 2 (snd (run_cmd [''adb'', ''devices''] True ?v)))"
    by (subst wait_for_serial_loop.simps)
      (simp add: list_adb_devices_eq skip_polls_fields)
  moreover have "wait_for_serial_loop serial timeout start w
      = wait_for_serial_loop serial timeout start ?v"
    using Suc by simp
  ultimately show ?case by (simp only: skip_polls_Suc)
qed

lemma wait_for_serial_loop_found:
  assumes "\<forall>j<n. poll_time w j - start < real_of_int timeout
             \<and> serial \<notin> reply_devices (replies w (calls w + j))"
    and "poll_time w n - start < real_of_int timeout"
    and "serial \<in> reply_devices (replies w (calls w + n))"
  shows "wait_for_serial_loop serial timeout start w
           = (Inr True, snd (run_cmd [''adb'', ''devices''] True (skip_polls [''adb'', ''devices''] n w)))"
  by (subst wait_for_serial_loop_skip[OF assms(1)], subst wait_for_serial_loop.simps)
    (simp add: list_adb_devices_eq skip_polls_fields assms)

lemma wait_for_serial_loop_timeout:
  assumes "\<forall>j<n. poll_time w j - start < real_of_int timeout
             \<and> serial \<notin> reply_devices (replies w (calls w + j))"
    and "\<not> poll_time w n - start < real_of_int timeout"
  shows "wait_for_serial_loop serial timeout start w
           = (Inl (TimeoutError (serial @ '' did not appear in adb devices within ''
                 @ str_int timeout @ ''s'')), skip_polls [''adb'', ''devices''] n w)"
  by (subst wait_for_serial_loop_skip[OF assms(1)], subst wait_for_serial_loop.simps)
    (simp add: skip_polls_fields assms)

lemma wait_for_boot_complete_loop_skip:
  assumes "\<forall>j<n. poll_time w j - start < real_of_int timeout
             \<and> \<not> reply_booted (replies w (calls w + j))"
  shows "wait_for_boot_complete_loop serial timeout start w
           = wait_for_boot_complete_loop serial timeout start (skip_polls (getprop_cmd serial) n w)"
  using assms
proof (induction n)
  case 0
  then show ?case by simp
next
  case (Suc n)
  let ?v = "skip_polls (getprop_cmd serial) n w"
  from Suc.prems have t: "poll_time w n - start < real_of_int timeout"
    and nb: "\<not> reply_booted (replies w (calls w + n))" by simp_all
  have "fst (run_cmd (getprop_cmd serial) True ?v) = outcome (replies w (calls w + n))"
    by (simp add: run_cmd_fst skip_polls_fields)
  with nb have "wait_for_boot_complete_loop serial timeout start ?v
      = wait_for_boot_complete_loop serial timeout start
          (time_sleep 2 (snd (run_cmd (getprop_cmd serial) True ?v)))"
    using t
    by (subst wait_for_boot_complete_loop.simps)
      (auto simp: skip_polls_fields reply_booted_def split: prod.splits sum.splits)
  moreover have "wait_for_boot_complete_loop serial timeout start w
      = wait_for_boot_complete_loop serial timeout start ?v"
    using Suc by simp
  ultimately show ?case by (simp only: skip_polls_Suc)
qed

lemma wait_for_boot_complete_loop_found:
  assumes "\<forall>j<n. poll_time w j - start < real_of_int timeout
             \<and> \<not> reply_booted (replies w (calls w + j))"
    and t: "poll_time w n - start < real_of_int timeout"
    and b: "reply_booted (replies w (calls w + n))"
  shows "wait_for_boot_complete_loop serial timeout start w
           = (Inr True, py_print (''[boot] '' @ serial @ '' boot complete.'')
                (snd (run_cmd (getprop_cmd serial) True (skip_polls (getprop_cmd serial) n w))))"
proof -
  let ?v = "skip_polls (getprop_cmd serial) n w"
  have "fst (run_cmd (getprop_cmd serial) True ?v) = outcome (replies w (calls w + n))"
    by (simp add: run_cmd_fst skip_polls_fields)
  with b t have "wait_for_boot_complete_loop serial timeout start ?v
      = (Inr True, py_print (''[boot] '' @ serial @ '' boot complete.'')
                (snd (run_cmd (getprop_cmd serial) True ?v)))"
    by (subst wait_for_boot_complete_loop.simps)
      (auto simp: skip_polls_fields reply_booted_def split: prod.splits sum.splits)
  then show ?thesis by (simp only: wait_for_boot_complete_loop_skip[OF assms(1)])
qed

lemma wait_for_boot_complete_loop_timeout:
  assumes "\<forall>j<n. poll_time w j - start < real_of_int timeout
             \<and> \<not> reply_booted (replies w (calls w + j))"
    and "\<not> poll_time w n - start < real_of_int timeout"
  shows "wait_for_boot_complete_loop serial timeout start w
           = (Inl (TimeoutError (serial @ '' did not finish boot within ''
                 @ str_int timeout @ ''s'')), skip_polls (getprop_cmd serial) n w)"
  by (subst wait_for_boot_complete_loop_skip[OF assms(1)], subst wait_for_boot_complete_loop.simps)
    (simp add: skip_polls_fields assms)

text \<open>
  A sequence of polls ends: either some poll meets the condition \<open>P\<close> before the
  timeout, or the timeout elapses first, after at most \<open>timeout / 2\<close> polls.
\<close>

lemma polls_end:
  "\<exists>n. (\<forall>j<n. poll_time w j - start < real_of_int timeout \<and> \<not> P j)
       \<and> (poll_time w n - start < real_of_int timeout \<and> P n
          \<or> \<not> poll_time w n - start < real_of_int timeout)"
proof -
  define m where "m = nat \<lceil>(real_of_int timeout - (now w - start)) / 2\<rceil>"
  have "(real_of_int timeout - (now w - start)) / 2 \<le> real m"
    unfolding m_def by (rule real_nat_ceiling_ge)
  then have "real_of_int timeout - (now w - start) \<le> 2 * real m" by simp
  moreover have "poll_time w 0 + 2 * real m \<le> poll_time w (0 + m)" by (rule poll_time_mono)
  ultimately have stop: "\<not> poll_time w m - start < real_of_int timeout" by simp
  define Q where "Q k \<longleftrightarrow> \<not> (poll_time w k - start < real_of_int timeout \<and> \<not> P k)" for k
  have "Q m" using stop by (simp add: Q_def)
  then have "Q (LEAST k. Q k)" and "\<forall>j<LEAST k. Q k. \<not> Q j"
    by (auto intro: LeastI dest: not_less_Least)
  then show ?thesis unfolding Q_def by blast
qed

subsection \<open>Discovery\<close>

text \<open>
  Claim C3. Let poll \<open>j\<close> of \<open>wait_for_serial\<close> be the enumeration made after \<open>j\<close>
  polls that did not show the serial. If poll \<open>n\<close> is the first whose result holds the
  serial, and the timeout has not elapsed when it starts, the phase returns \<open>True\<close> right
  after that poll, the \<open>(n + 1)\<close>-th call of the command. And whenever the phase returns a
  value, it is \<open>True\<close>, returned right after a poll whose result holds the serial, and no
  poll before it did: the phase never succeeds on a poll that does not show the serial.
\<close>

theorem discovery_first_sighting:
  "((\<forall>j<n. serial \<notin> fst (list_adb_devices (skip_polls [''adb'', ''devices''] j w)))
      \<and> serial \<in> fst (list_adb_devices (skip_polls [''adb'', ''devices''] n w))
      \<and> poll_time w n - now w < real_of_int timeout
     \<longrightarrow> wait_for_serial serial timeout w
           = (Inr True, snd (list_adb_devices (skip_polls [''adb'', ''devices''] n w)))
         \<and> calls (snd (wait_for_serial serial timeout w)) = calls w + n + 1)
   \<and> (fst (wait_for_serial serial timeout w) = Inr b
     \<longrightarrow> b
         \<and> (\<exists>n. snd (wait_for_serial serial timeout w)
                   = snd (list_adb_devices (skip_polls [''adb'', ''devices''] n w))
               \<and> serial \<in> fst (list_adb_devices (skip_polls [''adb'', ''devices''] n w))
               \<and> (\<forall>j<n. serial \<notin> fst (list_adb_devices (skip_polls [''adb'', ''devices''] j w)))))"
proof (intro conjI impI)
  assume a: "(\<forall>j<n. serial \<notin> fst (list_adb_devices (skip_polls [''adb'', ''devices''] j w)))
      \<and> serial \<in> fst (list_adb_devices (skip_polls [''adb'', ''devices''] n w))
      \<and> poll_time w n - now w < real_of_int timeout"
  have early: "poll_time w j - now w < real_of_int timeout" if "j < n" for j
  proof -
    from that obtain k where "n = j + k" using less_imp_add_positive by blast
    with poll_time_mono[of w j k] a show ?thesis by simp
  qed
  with a have pre: "\<forall>j<n. poll_time w j - now w < real_of_int timeout
      \<and> serial \<notin> reply_devices (replies w (calls w + j))"
    by (simp add: list_adb_devices_eq skip_polls_fields)
  from a have "serial \<in> reply_devices (replies w (calls w + n))"
    by (simp add: list_adb_devices_eq skip_polls_fields)
  with a wait_for_serial_loop_found[OF pre]
  show r: "wait_for_serial serial timeout w
      = (Inr True, snd (list_adb_devices (skip_polls [''adb'', ''devices''] n w)))"
    by (simp add: wait_for_serial_def list_adb_devices_eq)
  show "calls (snd (wait_for_serial serial timeout w)) = calls w + n + 1"
    by (simp add: r list_adb_devices_eq run_cmd_snd skip_polls_fields)
next
  assume s: "fst (wait_for_serial serial timeout w) = Inr b"
  from polls_end[of w "now w" timeout "\<lambda>j. serial \<in> reply_devices (replies w (calls w + j))"]
  obtain n where pre: "\<forall>j<n. poll_time w j - now w < real_of_int timeout
      \<and> serial \<notin> reply_devices (replies w (calls w + j))"
    and fin: "poll_time w n - now w < real_of_int timeout
          \<and> serial \<in> reply_devices (replies w (calls w + n))
        \<or> \<not> poll_time w n - now w < real_of_int timeout"
    by blast
  from fin have found: "poll_time w n - now w < real_of_int timeout
          \<and> serial \<in> reply_devices (replies w (calls w + n))"
  proof
    assume "\<not> poll_time w n - now w < real_of_int timeout"
    from wait_for_serial_loop_timeout[OF pre this] s show ?thesis
      by (simp add: wait_for_serial_def)
  qed
  with wait_for_serial_loop_found[OF pre] have r: "wait_for_serial serial timeout w
      = (Inr True, snd (list_adb_devices (skip_polls [''adb'', ''devices''] n w)))"
    by (simp add: wait_for_serial_def list_adb_devices_eq)
  with s show b by simp
  from r found pre
  have "snd (wait_for_serial serial timeout w)
                   = snd (list_adb_devices (skip_polls [''adb'', ''devices''] n w))
               \<and> serial \<in> fst (list_adb_devices (skip_polls [''adb'', ''devices''] n w))
               \<and> (\<forall>j<n. serial \<notin> fst (list_adb_devices (skip_polls [''adb'', ''devices''] j w)))"
    by (simp add: list_adb_devices_eq skip_polls_fields)
  then show "\<exists>n. snd (wait_for_serial serial timeout w)
                   = snd (list_adb_devices (skip_polls [''adb'', ''devices''] n w))
               \<and> serial \<in> fst (list_adb_devices (skip_polls [''adb'', ''devices''] n w))
               \<and> (\<forall>j<n. serial \<notin> fst (list_adb_devices (skip_polls [''adb'', ''devices''] j w)))"
    by blast
qed

lemma boot_query_skip:
  "boot_query serial (skip_polls cmd j w) = reply_booted (replies w (calls w + j))"
  by (simp add: boot_query_def reply_booted_def run_cmd_fst skip_polls_fields)

lemma devices_skip:
  "fst (list_adb_devices (skip_polls cmd j w)) = reply_devices (replies w (calls w + j))"
  by (simp add: list_adb_devices_eq skip_polls_fields)

text \<open>
  The theorem of claim C3 in a world where the emulator shows up in the third
  enumeration.
\<close>

theorem discovery_first_sighting_witness:
  "wait_for_serial ''emulator-5554'' 420 appearing_world
     = (Inr True, snd (list_adb_devices (skip_polls [''adb'', ''devices''] 2 appearing_world)))
   \<and> calls (snd (wait_for_serial ''emulator-5554'' 420 appearing_world)) = 3"
proof -
  have empty: "parse_devices header = {}"
    by (simp add: parse_devices_def header_def strip_def is_space_def is_linebreak_def
      splitlines_def add_device_def split_def)
  have full: "parse_devices listing = {''emulator-5554''}"
    by (simp add: parse_devices_def listing_def strip_def is_space_def is_linebreak_def
      splitlines_def add_device_def split_def)
  have absent: "\<forall>j<2. ''emulator-5554''
      \<notin> fst (list_adb_devices (skip_polls [''adb'', ''devices''] j appearing_world))"
    by (simp add: devices_skip reply_devices_def appearing_world_def offline_world_def said_def
        empty)
  have present: "''emulator-5554''
      \<in> fst (list_adb_devices (skip_polls [''adb'', ''devices''] 2 appearing_world))"
    by (simp add: devices_skip reply_devices_def appearing_world_def offline_world_def said_def
        full)
  have time: "poll_time appearing_world 2 - now appearing_world < real_of_int 420"
    by (simp add: numeral_2_eq_2 appearing_world_def offline_world_def said_def)
  from discovery_first_sighting[of 2 "''emulator-5554''" appearing_world 420] absent present time
  have r: "wait_for_serial ''emulator-5554'' 420 appearing_world
     = (Inr True, snd (list_adb_devices (skip_polls [''adb'', ''devices''] 2 appearing_world)))"
    and c: "calls (snd (wait_for_serial ''emulator-5554'' 420 appearing_world))
       = calls appearing_world + 2 + 1"
    by blast+
  have "calls appearing_world + 2 + 1 = 3"
    by (simp add: appearing_world_def offline_world_def)
  with c have "calls (snd (wait_for_serial ''emulator-5554'' 420 appearing_world)) = 3"
    by (simp only:)
  with r show ?thesis by blast
qed

subsection \<open>Boot completion\<close>

text \<open>
  Claim C4. When the query raises on the first two polls, answers \<^verbatim>\<open>0\<close> on the third and
  \<^verbatim>\<open>1\<close> on the fourth, and the timeout has not elapsed before the fourth poll,
  \<open>wait_for_boot_complete\<close> returns \<open>True\<close> after exactly four queries: each of the
  first three is followed by the sleep of two seconds and the next query, the fourth by
  the message of success.
\<close>

theorem boot_tolerates_errors:
  assumes "outcome (replies w (calls w)) = Inl e1"
    and "outcome (replies w (calls w + 1)) = Inl e2"
    and "outcome (replies w (calls w + 2)) = Inr p0" and "stdout p0 = Some ''0''"
    and "outcome (replies w (calls w + 3)) = Inr p1" and "stdout p1 = Some ''1''"
    and "poll_time w 3 - now w < real_of_int timeout"
  shows "fst (wait_for_boot_complete serial timeout w) = Inr True
     \<and> calls (snd (wait_for_boot_complete serial timeout w)) = calls w + 4
     \<and> trace (snd (wait_for_boot_complete serial timeout w))
         = trace w @ [Run (getprop_cmd serial), Sleep 2, Run (getprop_cmd serial), Sleep 2,
                      Run (getprop_cmd serial), Sleep 2, Run (getprop_cmd serial),
                      Print (''[boot] '' @ serial @ '' boot complete.'')]"
proof -
  have s0: "strip ''0'' = ''0''" and s1: "strip ''1'' = ''1''"
    by (simp_all add: strip_def is_space_def)
  have nb0: "\<not> reply_booted (replies w (calls w + 0))"
    using assms(1) by (simp add: reply_booted_def)
  have nb1: "\<not> reply_booted (replies w (calls w + 1))"
    using assms(2) by (simp add: reply_booted_def)
  have nb2: "\<not> reply_booted (replies w (calls w + 2))"
    using assms(3,4) by (simp add: reply_booted_def boot_completed_def s0)
  have nb: "\<not> reply_booted (replies w (calls w + j))" if "j < 3" for j
  proof -
    from that have "j = 0 \<or> j = 1 \<or> j = 2" by arith
    with nb0 nb1 nb2 show ?thesis by blast
  qed
  have b: "reply_booted (replies w (calls w + 3))"
    using assms(5,6) by (simp add: reply_booted_def boot_completed_def s1)
  have early: "poll_time w j - now w < real_of_int timeout" if "j < 3" for j
    using poll_time_le[of j 3 w] that assms(7) by simp
  with nb have pre: "\<forall>j<3. poll_time w j - now w < real_of_int timeout
      \<and> \<not> reply_booted (replies w (calls w + j))" by simp
  have r: "wait_for_boot_complete serial timeout w
      = (Inr True, py_print (''[boot] '' @ serial @ '' boot complete.'')
           (snd (run_cmd (getprop_cmd serial) True (skip_polls (getprop_cmd serial) 3 w))))"
    unfolding wait_for_boot_complete_def
    by (rule wait_for_boot_complete_loop_found[OF pre assms(7) b])
  have three: "concat (replicate 3 [Run (getprop_cmd serial), Sleep 2])
      = [Run (getprop_cmd serial), Sleep 2, Run (getprop_cmd serial), Sleep 2,
         Run (getprop_cmd serial), Sleep 2]"
    by (simp add: numeral_3_eq_3)
  have "fst (wait_for_boot_complete serial timeout w) = Inr True"
    by (simp add: r)
  moreover have "calls (snd (wait_for_boot_complete serial timeout w)) = calls w + 4"
    by (simp add: r py_print_def run_cmd_snd skip_polls_fields)
  moreover have "trace (snd (wait_for_boot_complete serial timeout w))
         = trace w @ [Run (getprop_cmd serial), Sleep 2, Run (getprop_cmd serial), Sleep 2,
                      Run (getprop_cmd serial), Sleep 2, Run (getprop_cmd serial),
                      Print (''[boot] '' @ serial @ '' boot complete.'')]"
    by (simp add: r py_print_def run_cmd_snd skip_polls_fields three)
  ultimately show ?thesis by blast
qed

text \<open>The theorem of claim C4 in a world with these four replies.\<close>

theorem boot_tolerates_errors_witness:
  "fst (wait_for_boot_complete ''emulator-5554'' 420 booting_world) = Inr True
   \<and> calls (snd (wait_for_boot_complete ''emulator-5554'' 420 booting_world)) = 4"
proof -
  have t: "poll_time booting_world 3 - now booting_world < real_of_int 420"
    by (simp add: numeral_3_eq_3 booting_world_def offline_world_def said_def)
  from boot_tolerates_errors[of booting_world "OtherException ''device offline''"
      "OtherException ''device offline''" "\<lparr>returncode = 0, stdout = Some ''0'', stderr = Some []\<rparr>"
      "\<lparr>returncode = 0, stdout = Some ''1'', stderr = Some []\<rparr>" 420 "''emulator-5554''"] t
  show ?thesis by (simp add: booting_world_def offline_world_def said_def)
qed

subsection \<open>Timeouts\<close>

text \<open>
  Claim C5. If no poll of \<open>wait_for_serial\<close> that starts before the timeout shows the
  serial, the phase raises its \<^verbatim>\<open>TimeoutError\<close> (did not appear in adb devices); if no
  poll of \<open>wait_for_boot_complete\<close> that starts before the timeout finds the boot
  completed, that phase raises its \<^verbatim>\<open>TimeoutError\<close> (did not finish boot). In both, the
  polls made are exactly the \<open>n\<close> polls that start before the timeout, and the world
  at the raise is the world after these polls: nothing is run once the timeout has
  elapsed.
\<close>

theorem phases_time_out:
  "((\<forall>j. poll_time w j - now w < real_of_int timeout \<longrightarrow>
        serial \<notin> fst (list_adb_devices (skip_polls [''adb'', ''devices''] j w)))
     \<longrightarrow> (\<exists>n. wait_for_serial serial timeout w
              = (Inl (TimeoutError (serial @ '' did not appear in adb devices within ''
                   @ str_int timeout @ ''s'')), skip_polls [''adb'', ''devices''] n w)
            \<and> calls (snd (wait_for_serial serial timeout w)) = calls w + n
            \<and> (\<forall>j<n. poll_time w j - now w < real_of_int timeout)
            \<and> real_of_int timeout \<le> poll_time w n - now w))
   \<and> ((\<forall>j. poll_time w j - now w < real_of_int timeout \<longrightarrow>
        \<not> boot_query serial (skip_polls (getprop_cmd serial) j w))
     \<longrightarrow> (\<exists>n. wait_for_boot_complete serial timeout w
              = (Inl (TimeoutError (serial @ '' did not finish boot within ''
                   @ str_int timeout @ ''s'')), skip_polls (getprop_cmd serial) n w)
            \<and> calls (snd (wait_for_boot_complete serial timeout w)) = calls w + n
            \<and> (\<forall>j<n. poll_time w j - now w < real_of_int timeout)
            \<and> real_of_int timeout \<le> poll_time w n - now w))"
proof (intro conjI impI)
  assume a: "\<forall>j. poll_time w j - now w < real_of_int timeout \<longrightarrow>
        serial \<notin> fst (list_adb_devices (skip_polls [''adb'', ''devices''] j w))"
  from polls_end[of w "now w" timeout "\<lambda>j. serial \<in> reply_devices (replies w (calls w + j))"]
  obtain n where pre: "\<forall>j<n. poll_time w j - now w < real_of_int timeout
      \<and> serial \<notin> reply_devices (replies w (calls w + j))"
    and fin: "poll_time w n - now w < real_of_int timeout
          \<and> serial \<in> reply_devices (replies w (calls w + n))
        \<or> \<not> poll_time w n - now w < real_of_int timeout"
    by blast
  from fin a have stop: "\<not> poll_time w n - now w < real_of_int timeout"
    by (auto simp: devices_skip)
  from wait_for_serial_loop_timeout[OF pre stop]
  have r: "wait_for_serial serial timeout w
      = (Inl (TimeoutError (serial @ '' did not appear in adb devices within ''
           @ str_int timeout @ ''s'')), skip_polls [''adb'', ''devices''] n w)"
    by (simp add: wait_for_serial_def)
  with pre stop have "wait_for_serial serial timeout w
              = (Inl (TimeoutError (serial @ '' did not appear in adb devices within ''
                   @ str_int timeout @ ''s'')), skip_polls [''adb'', ''devices''] n w)
            \<and> calls (snd (wait_for_serial serial timeout w)) = calls w + n
            \<and> (\<forall>j<n. poll_time w j - now w < real_of_int timeout)
            \<and> real_of_int timeout \<le> poll_time w n - now w"
    by (simp add: skip_polls_fields)
  then show "\<exists>n. wait_for_serial serial timeout w
              = (Inl (TimeoutError (serial @ '' did not appear in adb devices within ''
                   @ str_int timeout @ ''s'')), skip_polls [''adb'', ''devices''] n w)
            \<and> calls (snd (wait_for_serial serial timeout w)) = calls w + n
            \<and> (\<forall>j<n. poll_time w j - now w < real_of_int timeout)
            \<and> real_of_int timeout \<le> poll_time w n - now w"
    by blast
next
  assume a: "\<forall>j. poll_time w j - now w < real_of_int timeout \<longrightarrow>
        \<not> boot_query serial (skip_polls (getprop_cmd serial) j w)"
  from polls_end[of w "now w" timeout "\<lambda>j. reply_booted (replies w (calls w + j))"]
  obtain n where pre: "\<forall>j<n. poll_time w j - now w < real_of_int timeout
      \<and> \<not> reply_booted (replies w (calls w + j))"
    and fin: "poll_time w n - now w < real_of_int timeout
          \<and> reply_booted (replies w (calls w + n))
        \<or> \<not> poll_time w n - now w < real_of_int timeout"
    by blast
  from fin a have stop: "\<not> poll_time w n - now w < real_of_int timeout"
    by (auto simp: boot_query_skip)
  from wait_for_boot_complete_loop_timeout[OF pre stop]
  have r: "wait_for_boot_complete serial timeout w
      = (Inl (TimeoutError (serial @ '' did not finish boot within ''
           @ str_int timeout @ ''s'')), skip_polls (getprop_cmd serial) n w)"
    by (simp add: wait_for_boot_complete_def)
  with pre stop have "wait_for_boot_complete serial timeout w
              = (Inl (TimeoutError (serial @ '' did not finish boot within ''
                   @ str_int timeout @ ''s'')), skip_polls (getprop_cmd serial) n w)
            \<and> calls (snd (wait_for_boot_complete serial timeout w)) = calls w + n
            \<and> (\<forall>j<n. poll_time w j - now w < real_of_int timeout)
            \<and> real_of_int timeout \<le> poll_time w n - now w"
    by (simp add: skip_polls_fields)
  then show "\<exists>n. wait_for_boot_complete serial timeout w
              = (Inl (TimeoutError (serial @ '' did not finish boot within ''
                   @ str_int timeout @ ''s'')), skip_polls (getprop_cmd serial) n w)
            \<and> calls (snd (wait_for_boot_complete serial timeout w)) = calls w + n
            \<and> (\<forall>j<n. poll_time w j - now w < real_of_int timeout)
            \<and> real_of_int timeout \<le> poll_time w n - now w"
    by blast
qed

text \<open>The theorem of claim C5 with a timeout of 5 seconds and no \<^verbatim>\<open>adb\<close>.\<close>

theorem phases_time_out_witness:
  "(\<exists>n. wait_for_serial ''emulator-5554'' 5 offline_world
          = (Inl (TimeoutError (''emulator-5554'' @ '' did not appear in adb devices within ''
               @ str_int 5 @ ''s'')), skip_polls [''adb'', ''devices''] n offline_world)
        \<and> calls (snd (wait_for_serial ''emulator-5554'' 5 offline_world)) = n)
   \<and> (\<exists>n. wait_for_boot_complete ''emulator-5554'' 5 offline_world
          = (Inl (TimeoutError (''emulator-5554'' @ '' did not finish boot within ''
               @ str_int 5 @ ''s'')), skip_polls (getprop_cmd ''emulator-5554'') n offline_world)
        \<and> calls (snd (wait_for_boot_complete ''emulator-5554'' 5 offline_world)) = n)"
proof -
  have d: "\<forall>j. poll_time offline_world j - now offline_world < real_of_int 5 \<longrightarrow>
      ''emulator-5554'' \<notin> fst (list_adb_devices (skip_polls [''adb'', ''devices''] j offline_world))"
    by (simp add: devices_skip reply_devices_def offline_world_def)
  have b: "\<forall>j. poll_time offline_world j - now offline_world < real_of_int 5 \<longrightarrow>
      \<not> boot_query ''emulator-5554'' (skip_polls (getprop_cmd ''emulator-5554'') j offline_world)"
    by (simp add: boot_query_skip reply_booted_def offline_world_def)
  have c: "calls offline_world = 0" by (simp add: offline_world_def)
  from phases_time_out[of offline_world 5 "''emulator-5554''"] d b
  show ?thesis unfolding c by auto
qed

section \<open>The enumeration of live endpoints\<close>

lemma fold_add_device:
  "fold add_device ls S =
     S \<union> {split l ! 0 | l. l \<in> set ls \<and> 2 \<le> length (split l) \<and> split l ! 1 = ''device''}"
proof (induction ls arbitrary: S)
  case Nil
  then show ?case by simp
next
  case (Cons a ls)
  show ?case
    by (simp add: Cons.IH) (auto simp: add_device_def Let_def)
qed

lemma parse_devices_eq:
  "parse_devices txt =
     {split l ! 0 | l. l \<in> set (drop 1 (splitlines (strip txt)))
        \<and> 2 \<le> length (split l) \<and> split l ! 1 = ''device''}"
  by (simp add: parse_devices_def fold_add_device)

lemma poll_time_cong:
  assumes "now w = now v" "calls w = calls v"
    and "\<forall>k. lag_ms (replies w k) = lag_ms (replies v k)"
  shows "poll_time w j = poll_time v j"
  using assms by (induction j) simp_all

lemma wait_for_serial_same_endpoints:
  assumes n: "now w = now v" and c: "calls w = calls v" and t: "trace w = trace v"
    and l: "\<forall>k. lag_ms (replies w k) = lag_ms (replies v k)"
    and d: "\<forall>k. reply_devices (replies w k) = reply_devices (replies v k)"
  shows "fst (wait_for_serial serial timeout w) = fst (wait_for_serial serial timeout v)
     \<and> now (snd (wait_for_serial serial timeout w)) = now (snd (wait_for_serial serial timeout v))
     \<and> calls (snd (wait_for_serial serial timeout w)) = calls (snd (wait_for_serial serial timeout v))
     \<and> trace (snd (wait_for_serial serial timeout w)) = trace (snd (wait_for_serial serial timeout v))"
proof -
  have pt: "poll_time w j = poll_time v j" for j
    using n c l by (rule poll_time_cong)
  from polls_end[of w "now w" timeout "\<lambda>j. serial \<in> reply_devices (replies w (calls w + j))"]
  obtain m where pre: "\<forall>j<m. poll_time w j - now w < real_of_int timeout
      \<and> serial \<notin> reply_devices (replies w (calls w + j))"
    and fin: "poll_time w m - now w < real_of_int timeout
          \<and> serial \<in> reply_devices (replies w (calls w + m))
        \<or> \<not> poll_time w m - now w < real_of_int timeout"
    by blast
  from pre have pre': "\<forall>j<m. poll_time v j - now v < real_of_int timeout
      \<and> serial \<notin> reply_devices (replies v (calls v + j))"
    using pt n c d by simp
  from fin show ?thesis
  proof
    assume f: "poll_time w m - now w < real_of_int timeout
          \<and> serial \<in> reply_devices (replies w (calls w + m))"
    then have f': "poll_time v m - now v < real_of_int timeout
          \<and> serial \<in> reply_devices (replies v (calls v + m))"
      using pt n c d by simp
    from wait_for_serial_loop_found[OF pre] f wait_for_serial_loop_found[OF pre'] f'
    show ?thesis
      by (simp add: wait_for_serial_def run_cmd_snd skip_polls_fields pt n c t l)
  next
    assume f: "\<not> poll_time w m - now w < real_of_int timeout"
    then have f': "\<not> poll_time v m - now v < real_of_int timeout"
      using pt n by simp
    from wait_for_serial_loop_timeout[OF pre f] wait_for_serial_loop_timeout[OF pre' f']
    show ?thesis
      by (simp add: wait_for_serial_def skip_polls_fields pt n c t)
  qed
qed

text \<open>
  Claim C10. \<open>list_adb_devices\<close> always returns a set: the empty set when the command
  \<^verbatim>\<open>adb devices\<close> raises, and otherwise the first fields of those lines of the stripped
  output, the first line apart, that have at least two fields and \<^verbatim>\<open>device\<close> as the
  second. For the discovery phase a poll whose command raises is the same as a poll
  whose command prints the header alone, which lists no endpoint: the result of the
  phase, its clock, the number of its polls and its effects do not change.
\<close>

theorem list_adb_devices_total:
  "(fst (run_cmd [''adb'', ''devices''] True w) = Inl e \<longrightarrow> fst (list_adb_devices w) = {})
   \<and> (fst (run_cmd [''adb'', ''devices''] True w) = Inr p \<longrightarrow>
        fst (list_adb_devices w)
          = {split l ! 0 | l.
               l \<in> set (drop 1 (splitlines (strip (case stdout p of None \<Rightarrow> [] | Some s \<Rightarrow> s))))
               \<and> 2 \<le> length (split l) \<and> split l ! 1 = ''device''})
   \<and> (outcome (replies w k) = Inl e \<longrightarrow>
        (let v = w\<lparr>replies := (replies w)
                   (k := (replies w k)\<lparr>outcome :=
                           Inr \<lparr>returncode = 0, stdout = Some header, stderr = Some []\<rparr>\<rparr>)\<rparr>
         in fst (wait_for_serial serial timeout v) = fst (wait_for_serial serial timeout w)
          \<and> now (snd (wait_for_serial serial timeout v)) = now (snd (wait_for_serial serial timeout w))
          \<and> calls (snd (wait_for_serial serial timeout v)) = calls (snd (wait_for_serial serial timeout w))
          \<and> trace (snd (wait_for_serial serial timeout v)) = trace (snd (wait_for_serial serial timeout w))))"
proof (intro conjI impI)
  assume "fst (run_cmd [''adb'', ''devices''] True w) = Inl e"
  then show "fst (list_adb_devices w) = {}"
    by (cases "run_cmd [''adb'', ''devices''] True w") (simp add: list_adb_devices_def)
next
  assume "fst (run_cmd [''adb'', ''devices''] True w) = Inr p"
  then show "fst (list_adb_devices w)
          = {split l ! 0 | l.
               l \<in> set (drop 1 (splitlines (strip (case stdout p of None \<Rightarrow> [] | Some s \<Rightarrow> s))))
               \<and> 2 \<le> length (split l) \<and> split l ! 1 = ''device''}"
    by (cases "run_cmd [''adb'', ''devices''] True w")
      (simp add: list_adb_devices_def parse_devices_eq)
next
  assume e: "outcome (replies w k) = Inl e"
  define v where "v = w\<lparr>replies := (replies w)
                   (k := (replies w k)\<lparr>outcome :=
                           Inr \<lparr>returncode = 0, stdout = Some header, stderr = Some []\<rparr>\<rparr>)\<rparr>"
  have empty: "parse_devices header = {}"
    by (simp add: parse_devices_def header_def strip_def is_space_def is_linebreak_def
      splitlines_def add_device_def split_def)
  have "\<forall>j. reply_devices (replies v j) = reply_devices (replies w j)"
    using e by (simp add: v_def reply_devices_def empty)
  moreover have "\<forall>j. lag_ms (replies v j) = lag_ms (replies w j)"
    by (simp add: v_def)
  moreover have "now v = now w" "calls v = calls w" "trace v = trace w"
    by (simp_all add: v_def)
  ultimately have "fst (wait_for_serial serial timeout v) = fst (wait_for_serial serial timeout w)
          \<and> now (snd (wait_for_serial serial timeout v)) = now (snd (wait_for_serial serial timeout w))
          \<and> calls (snd (wait_for_serial serial timeout v)) = calls (snd (wait_for_serial serial timeout w))
          \<and> trace (snd (wait_for_serial serial timeout v)) = trace (snd (wait_for_serial serial timeout w))"
    by (intro wait_for_serial_same_endpoints) simp_all
  then show "let v = w\<lparr>replies := (replies w)
                   (k := (replies w k)\<lparr>outcome :=
                           Inr \<lparr>returncode = 0, stdout = Some header, stderr = Some []\<rparr>\<rparr>)\<rparr>
         in fst (wait_for_serial serial timeout v) = fst (wait_for_serial serial timeout w)
          \<and> now (snd (wait_for_serial serial timeout v)) = now (snd (wait_for_serial serial timeout w))
          \<and> calls (snd (wait_for_serial serial timeout v)) = calls (snd (wait_for_serial serial timeout w))
          \<and> trace (snd (wait_for_serial serial timeout v)) = trace (snd (wait_for_serial serial timeout w))"
    unfolding v_def Let_def .
qed

text \<open>
  The theorem of claim C10 without \<^verbatim>\<open>adb\<close>, and for an output that lists one emulator.
\<close>

theorem list_adb_devices_total_witness:
  "fst (list_adb_devices offline_world) = {}
   \<and> fst (list_adb_devices (appearing_world\<lparr>calls := 2\<rparr>)) = {''emulator-5554''}
   \<and> fst (wait_for_serial ''emulator-5554'' 5
        (offline_world\<lparr>replies := (replies offline_world)
            (0 := (replies offline_world 0)\<lparr>outcome :=
                     Inr \<lparr>returncode = 0, stdout = Some header, stderr = Some []\<rparr>\<rparr>)\<rparr>))
      = fst (wait_for_serial ''emulator-5554'' 5 offline_world)"
proof -
  have full: "parse_devices listing = {''emulator-5554''}"
    by (simp add: parse_devices_def listing_def strip_def is_space_def is_linebreak_def
      splitlines_def add_device_def split_def)
  have a: "fst (run_cmd [''adb'', ''devices''] True offline_world) = Inl (FileNotFoundError ''adb'')"
    by (simp add: run_cmd_fst offline_world_def)
  have b: "fst (run_cmd [''adb'', ''devices''] True (appearing_world\<lparr>calls := 2\<rparr>))
      = Inr \<lparr>returncode = 0, stdout = Some listing, stderr = Some []\<rparr>"
    by (simp add: run_cmd_fst appearing_world_def offline_world_def said_def)
  have c: "outcome (replies offline_world 0) = Inl (FileNotFoundError ''adb'')"
    by (simp add: offline_world_def)
  from list_adb_devices_total[of offline_world "FileNotFoundError ''adb''" _ 0 "''emulator-5554''" 5] a c
  have 1: "fst (list_adb_devices offline_world) = {}"
    and 3: "fst (wait_for_serial ''emulator-5554'' 5
        (offline_world\<lparr>replies := (replies offline_world)
            (0 := (replies offline_world 0)\<lparr>outcome :=
                     Inr \<lparr>returncode = 0, stdout = Some header, stderr = Some []\<rparr>\<rparr>)\<rparr>))
      = fst (wait_for_serial ''emulator-5554'' 5 offline_world)"
    unfolding Let_def by blast+
  from list_adb_devices_total[of "appearing_world\<lparr>calls := 2\<rparr>" _
      "\<lparr>returncode = 0, stdout = Some listing, stderr = Some []\<rparr>"] b
  have "fst (list_adb_devices (appearing_world\<lparr>calls := 2\<rparr>)) = parse_devices listing"
    by (simp add: parse_devices_eq)
  with 1 3 full show ?thesis by simp
qed

section \<open>The payload driver\<close>





section \<open>The instance worker\<close>

subsection \<open>The stages append events other than those of the semaphore\<close>

lemma extends_refl: "extends w w"
  by (simp add: extends_def sem_free_def)

lemma extends_trans: "extends w v \<Longrightarrow> extends v u \<Longrightarrow> extends w u"
  by (auto simp: extends_def sem_free_def)

lemma extends_print: "extends w (py_print s w)"
  by (simp add: extends_def sem_free_def py_print_def)

lemma extends_sleep: "extends w (time_sleep d w)"
  by (simp add: extends_def sem_free_def time_sleep_def)

lemma extends_run_cmd: "extends w (snd (run_cmd cmd cap w))"
  by (simp add: extends_def sem_free_def run_cmd_snd)

lemma run_cmd_extends: "run_cmd cmd cap w = (r, w') \<Longrightarrow> extends w w'"
  using extends_run_cmd[of w cmd cap] by simp

lemma extends_skip_polls: "extends w (skip_polls cmd n w)"
proof -
  have "sem_free (concat (replicate n [Run cmd, Sleep 2]))"
    by (induction n) (simp_all add: sem_free_def)
  then show ?thesis by (auto simp: extends_def skip_polls_fields)
qed

lemma extends_wait_for_serial: "extends w (snd (wait_for_serial serial timeout w))"
proof -
  from polls_end[of w "now w" timeout "\<lambda>j. serial \<in> reply_devices (replies w (calls w + j))"]
  obtain n where pre: "\<forall>j<n. poll_time w j - now w < real_of_int timeout
      \<and> serial \<notin> reply_devices (replies w (calls w + j))"
    and fin: "poll_time w n - now w < real_of_int timeout
          \<and> serial \<in> reply_devices (replies w (calls w + n))
        \<or> \<not> poll_time w n - now w < real_of_int timeout"
    by blast
  from fin show ?thesis
  proof
    assume "poll_time w n - now w < real_of_int timeout
          \<and> serial \<in> reply_devices (replies w (calls w + n))"
    with wait_for_serial_loop_found[OF pre]
    have "snd (wait_for_serial serial timeout w)
        = snd (run_cmd [''adb'', ''devices''] True (skip_polls [''adb'', ''devices''] n w))"
      by (simp add: wait_for_serial_def)
    then show ?thesis
      using extends_trans[OF extends_skip_polls extends_run_cmd] by simp
  next
    assume "\<not> poll_time w n - now w < real_of_int timeout"
    from wait_for_serial_loop_timeout[OF pre this]
    show ?thesis by (simp add: wait_for_serial_def extends_skip_polls)
  qed
qed

lemma extends_wait_for_boot_complete:
  "extends w (snd (wait_for_boot_complete serial timeout w))"
proof -
  from polls_end[of w "now w" timeout "\<lambda>j. reply_booted (replies w (calls w + j))"]
  obtain n where pre: "\<forall>j<n. poll_time w j - now w < real_of_int timeout
      \<and> \<not> reply_booted (replies w (calls w + j))"
    and fin: "poll_time w n - now w < real_of_int timeout
          \<and> reply_booted (replies w (calls w + n))
        \<or> \<not> poll_time w n - now w < real_of_int timeout"
    by blast
  from fin show ?thesis
  proof
    assume "poll_time w n - now w < real_of_int timeout
          \<and> reply_booted (replies w (calls w + n))"
    with wait_for_boot_complete_loop_found[OF pre]
    have "snd (wait_for_boot_complete serial timeout w)
        = py_print (''[boot] '' @ serial @ '' boot complete.'')
            (snd (run_cmd (getprop_cmd serial) True (skip_polls (getprop_cmd serial) n w)))"
      by (simp add: wait_for_boot_complete_def)
    then show ?thesis
      using extends_trans[OF extends_trans[OF extends_skip_polls extends_run_cmd] extends_print]
      by simp
  next
    assume "\<not> poll_time w n - now w < real_of_int timeout"
    from wait_for_boot_complete_loop_timeout[OF pre this]
    show ?thesis by (simp add: wait_for_boot_complete_def extends_skip_polls)
  qed
qed

lemma extends_start_emulator_detached:
  "extends w (snd (start_emulator_detached avd_name port w))"
  by (auto simp: start_emulator_detached_def Let_def extends_def sem_free_def py_print_def
      split: option.splits)

lemma extends_randint: "extends w (snd (randint lo hi w))"
  by (simp add: randint_def extends_def sem_free_def)

lemma extends_open_cpi_and_install:
  "extends w (snd (open_cpi_and_install serial apk_path package_name run_time w))"
proof -
  note step = extends_trans[rotated]
  show ?thesis
    unfolding open_cpi_and_install_def Let_def
    by (auto split: prod.splits sum.splits
        intro!: extends_print extends_sleep step[OF extends_print] step[OF extends_sleep]
        dest!: run_cmd_extends
        simp: randint_def)
      (auto simp: extends_def sem_free_def py_print_def time_sleep_def)
qed

lemma start_emulator_detached_extends:
  "start_emulator_detached avd_name port w = (r, w') \<Longrightarrow> extends w w'"
  using extends_start_emulator_detached[of w avd_name port] by simp

lemma wait_for_serial_extends:
  "wait_for_serial serial timeout w = (r, w') \<Longrightarrow> extends w w'"
  using extends_wait_for_serial[of w serial timeout] by simp

lemma wait_for_boot_complete_extends:
  "wait_for_boot_complete serial timeout w = (r, w') \<Longrightarrow> extends w w'"
  using extends_wait_for_boot_complete[of w serial timeout] by simp

lemma open_cpi_and_install_extends:
  "open_cpi_and_install serial apk_path package_name run_time w = (r, w') \<Longrightarrow> extends w w'"
  using extends_open_cpi_and_install[of w serial apk_path package_name run_time] by simp

subsection \<open>The events of one worker\<close>

lemma worker_try_acquired:
  assumes "acquire_fault w = None" and "worker_try avd_name port w = (r, acquired, h, w')"
  shows "acquired \<and> extends (w\<lparr>trace := trace w @ [Acquire]\<rparr>) w'"
proof -
  let ?w0 = "w\<lparr>trace := trace w @ [Acquire]\<rparr>"
  obtain r1 w1 where s: "start_emulator_detached avd_name port ?w0 = (r1, w1)"
    by (cases "start_emulator_detached avd_name port ?w0")
  then have e1: "extends ?w0 w1" by (rule start_emulator_detached_extends)
  show ?thesis
  proof (cases r1)
    case (Inl e)
    with assms s e1 show ?thesis by (simp add: worker_try_def sem_acquire_def)
  next
    case (Inr pl)
    obtain p logfile where pl: "pl = (p, logfile)" by (cases pl)
    let ?w2 = "py_print (''[worker] Waiting for serial '' @ serial_of port @ '' to appear.'') w1"
    have e2: "extends ?w0 ?w2" using e1 extends_print by (rule extends_trans)
    obtain r3 w3 where d: "wait_for_serial (serial_of port) BOOT_TIMEOUT ?w2 = (r3, w3)"
      by (cases "wait_for_serial (serial_of port) BOOT_TIMEOUT ?w2")
    then have e3: "extends ?w0 w3" using e2 wait_for_serial_extends extends_trans by blast
    show ?thesis
    proof (cases r3)
      case (Inl e)
      with assms s Inr pl d e3 show ?thesis
        by (simp add: worker_try_def sem_acquire_def Let_def)
    next
      case r3: (Inr b)
      let ?w4 = "py_print (''[worker] '' @ serial_of port @ '' present - waiting for boot.'') w3"
      have e4: "extends ?w0 ?w4" using e3 extends_print by (rule extends_trans)
      obtain r5 w5 where b: "wait_for_boot_complete (serial_of port) BOOT_TIMEOUT ?w4 = (r5, w5)"
        by (cases "wait_for_boot_complete (serial_of port) BOOT_TIMEOUT ?w4")
      then have e5: "extends ?w0 w5"
        using e4 wait_for_boot_complete_extends extends_trans by blast
      show ?thesis
      proof (cases r5)
        case (Inl e)
        with assms s Inr pl d r3 b e5 show ?thesis
          by (simp add: worker_try_def sem_acquire_def Let_def)
      next
        case r5: (Inr b')
        obtain r6 w6 where
          o: "open_cpi_and_install (serial_of port) APK_PATH PACKAGE_NAME RUN_TIME w5 = (r6, w6)"
          by (cases "open_cpi_and_install (serial_of port) APK_PATH PACKAGE_NAME RUN_TIME w5")
        then have e6: "extends ?w0 w6"
          using e5 open_cpi_and_install_extends extends_trans by blast
        with assms s Inr pl d r3 b r5 o show ?thesis
          by (simp add: worker_try_def sem_acquire_def Let_def)
      qed
    qed
  qed
qed

lemma worker_try_not_acquired:
  assumes "acquire_fault w = Some e"
  shows "worker_try avd_name port w = (Inl e, False, \<lparr>proc = None, log = None\<rparr>, w)"
  using assms by (simp add: worker_try_def sem_acquire_def)

lemma instance_worker_trace:
  "(acquire_fault w = None \<longrightarrow>
      (\<exists>mid. trace (final (instance_worker avd_name port w)) = trace w @ [Acquire] @ mid @ [Release]
         \<and> sem_free mid))
   \<and> (acquire_fault w = Some e \<longrightarrow>
        trace (final (instance_worker avd_name port w))
          = trace w @ [Print (''[ERROR] instance '' @ avd_name @ '' (port '' @ str_int port
                                @ '') failed: '' @ str_exception e)])"
proof (intro conjI impI)
  assume a: "acquire_fault w = None"
  obtain r acquired h w' where t: "worker_try avd_name port w = (r, acquired, h, w')"
    by (cases "worker_try avd_name port w") auto
  from worker_try_acquired[OF a t] obtain es where acq: acquired
    and es: "trace w' = trace w @ [Acquire] @ es" "sem_free es"
    by (auto simp: extends_def)
  show "\<exists>mid. trace (final (instance_worker avd_name port w)) = trace w @ [Acquire] @ mid @ [Release]
         \<and> sem_free mid"
  proof (cases r)
    case (Inl x)
    with t acq es have "trace (final (instance_worker avd_name port w))
        = trace w @ [Acquire] @ (es @ [Print (''[ERROR] instance '' @ avd_name @ '' (port ''
               @ str_int port @ '') failed: '' @ str_exception x)]) @ [Release]
      \<and> sem_free (es @ [Print (''[ERROR] instance '' @ avd_name @ '' (port ''
               @ str_int port @ '') failed: '' @ str_exception x)])"
      by (simp add: instance_worker_def sem_release_def py_print_def sem_free_def)
    then show ?thesis by blast
  next
    case (Inr u)
    with t acq es have "trace (final (instance_worker avd_name port w))
        = trace w @ [Acquire] @ es @ [Release] \<and> sem_free es"
      by (simp add: instance_worker_def sem_release_def)
    then show ?thesis by blast
  qed
next
  assume "acquire_fault w = Some e"
  from worker_try_not_acquired[OF this]
  show "trace (final (instance_worker avd_name port w))
          = trace w @ [Print (''[ERROR] instance '' @ avd_name @ '' (port '' @ str_int port
                                @ '') failed: '' @ str_exception e)]"
    by (simp add: instance_worker_def py_print_def)
qed

text \<open>
  Claim C6. A worker whose \<^verbatim>\<open>semaphore.acquire()\<close> returns performs \<open>Acquire\<close> first and
  \<open>Release\<close> last, and neither in between, whatever its stages do: it releases the
  token exactly once, on exit. A worker whose acquire raises performs neither
  \<open>Acquire\<close> nor \<open>Release\<close>.
\<close>

theorem token_released_once:
  "(acquire_fault w = None \<longrightarrow>
      (\<exists>mid. trace (final (instance_worker avd_name port w))
                = trace w @ [Acquire] @ mid @ [Release]
            \<and> Acquire \<notin> set mid \<and> Release \<notin> set mid))
   \<and> (acquire_fault w = Some e \<longrightarrow>
        Acquire \<notin> set (drop (length (trace w)) (trace (final (instance_worker avd_name port w))))
        \<and> Release \<notin> set (drop (length (trace w)) (trace (final (instance_worker avd_name port w)))))"
  using instance_worker_trace[of w avd_name port e]
  by (auto simp: sem_free_def)

text \<open>
  The theorem of claim C6 for a worker whose emulator cannot be started, and for one
  whose acquire raises.
\<close>

theorem token_released_once_witness:
  "(\<exists>mid. trace (final (instance_worker ''MyAVD3_copy1'' 5554 broken_launch_world))
             = trace broken_launch_world @ [Acquire] @ mid @ [Release]
         \<and> Acquire \<notin> set mid \<and> Release \<notin> set mid)
   \<and> Release \<notin> set (drop (length (trace interrupted_world))
                   (trace (final (instance_worker ''MyAVD3_copy1'' 5554 interrupted_world))))"
proof -
  have a: "acquire_fault broken_launch_world = None"
    by (simp add: broken_launch_world_def offline_world_def)
  have b: "acquire_fault interrupted_world = Some (OtherException ''interrupted'')"
    by (simp add: interrupted_world_def offline_world_def)
  from token_released_once[where w = broken_launch_world and avd_name = "''MyAVD3_copy1''"
      and port = 5554] a
  have 1: "\<exists>mid. trace (final (instance_worker ''MyAVD3_copy1'' 5554 broken_launch_world))
             = trace broken_launch_world @ [Acquire] @ mid @ [Release]
         \<and> Acquire \<notin> set mid \<and> Release \<notin> set mid"
    by blast
  from token_released_once[where w = interrupted_world and avd_name = "''MyAVD3_copy1''"
      and port = 5554 and e = "OtherException ''interrupted''"] b
  have "Release \<notin> set (drop (length (trace interrupted_world))
                   (trace (final (instance_worker ''MyAVD3_copy1'' 5554 interrupted_world))))"
    by blast
  with 1 show ?thesis by blast
qed

subsection \<open>Failures stay in the worker\<close>

lemma start_workers_results:
  "fst (start_workers plans i ws w)
     = map (\<lambda>(k, name, port). instance_worker name port (ws k)) (zip [i..<i + length plans] plans)"
proof (induction plans arbitrary: i w)
  case Nil
  then show ?case by simp
next
  case (Cons a plans)
  obtain name port where a: "a = (name, port)" by (cases a)
  let ?f = "\<lambda>(k, name, port). instance_worker name port (ws k)"
  let ?w = "time_sleep 1 (w\<lparr>trace := trace w @ [Start_thread name port]\<rparr>)"
  have u: "[i..<i + length (a # plans)] = i # [Suc i..<Suc i + length plans]"
    by (subst upt_rec) simp
  have "fst (start_workers (a # plans) i ws w)
      = instance_worker name port (ws i) # fst (start_workers plans (Suc i) ws ?w)"
    by (simp add: a Let_def split: prod.splits)
  also have "\<dots> = instance_worker name port (ws i)
      # map ?f (zip [Suc i..<Suc i + length plans] plans)"
    by (simp only: Cons.IH)
  also have "\<dots> = map ?f (zip (i # [Suc i..<Suc i + length plans]) (a # plans))"
    by (simp add: a)
  finally show ?case by (simp only: u)
qed

lemma escaped_None: "escaped (instance_worker avd_name port w) = None"
  by (simp add: instance_worker_def Let_def split: prod.splits)

text \<open>
  Claim C7. No exception leaves \<open>instance_worker\<close>: an exception of its \<^verbatim>\<open>try\<close> block
  is caught and printed with the name and port of the instance. When the clones and
  the allocation of a run succeed, \<open>main\<close> ends with the exit code 0, and its workers are
  the plans' workers, each in its own world, none with an exception escaped, whatever
  happens in these worlds.
\<close>

theorem failures_stay_in_worker:
  "escaped (instance_worker avd_name port w) = None
   \<and> (fst (worker_try avd_name port w) = Inl e \<longrightarrow>
        Print (''[ERROR] instance '' @ avd_name @ '' (port '' @ str_int port @ '') failed: ''
                 @ str_exception e)
          \<in> set (trace (final (instance_worker avd_name port w))))
   \<and> (1 \<le> total'
      \<and> clone_all (avd_names total') (py_print ''[step] Preparing clones...'' w0) = (Inr (), w2)
      \<and> allocate total' (fst (list_adb_devices w2)) = Inr plans \<longrightarrow>
        status (main (Inr total') ws w0) = Exit 0
        \<and> workers (main (Inr total') ws w0)
            = map (\<lambda>(k, name, port). instance_worker name port (ws k)) (zip [0..<length plans] plans)
        \<and> (\<forall>r\<in>set (workers (main (Inr total') ws w0)). escaped r = None))"
proof (intro conjI impI)
  show "escaped (instance_worker avd_name port w) = None" by (rule escaped_None)
next
  assume "fst (worker_try avd_name port w) = Inl e"
  then show "Print (''[ERROR] instance '' @ avd_name @ '' (port '' @ str_int port @ '') failed: ''
                 @ str_exception e)
          \<in> set (trace (final (instance_worker avd_name port w)))"
    by (cases "worker_try avd_name port w")
      (simp add: instance_worker_def Let_def py_print_def sem_release_def)
next
  assume a: "1 \<le> total'
      \<and> clone_all (avd_names total') (py_print ''[step] Preparing clones...'' w0) = (Inr (), w2)
      \<and> allocate total' (fst (list_adb_devices w2)) = Inr plans"
  obtain found w3 where l: "list_adb_devices w2 = (found, w3)" by (cases "list_adb_devices w2")
  obtain results w4 where s: "start_workers plans 0 ws w3 = (results, w4)"
    by (cases "start_workers plans 0 ws w3")
  from a l s have m: "status (main (Inr total') ws w0) = Exit 0
      \<and> workers (main (Inr total') ws w0) = results"
    by (simp add: main_def Let_def)
  then show "status (main (Inr total') ws w0) = Exit 0" by simp
  from s have "results = map (\<lambda>(k, name, port). instance_worker name port (ws k))
      (zip [0..<length plans] plans)"
    using start_workers_results[of plans 0 ws w3] by simp
  with m show w: "workers (main (Inr total') ws w0)
            = map (\<lambda>(k, name, port). instance_worker name port (ws k)) (zip [0..<length plans] plans)"
    by simp
  show "\<forall>r\<in>set (workers (main (Inr total') ws w0)). escaped r = None"
    unfolding w by (auto simp: escaped_None)
qed

text \<open>The theorem of claim C7 for a run of one instance whose emulator cannot be started.\<close>

theorem failures_stay_in_worker_witness:
  "fst (worker_try ''MyAVD3_copy1'' 5554 broken_launch_world) = Inl (FileNotFoundError ''emulator'')
   \<and> escaped (instance_worker ''MyAVD3_copy1'' 5554 broken_launch_world) = None
   \<and> status (main (Inr 1) (\<lambda>i. broken_launch_world) offline_world) = Exit 0
   \<and> workers (main (Inr 1) (\<lambda>i. broken_launch_world) offline_world)
       = [instance_worker ''MyAVD3_copy1'' 5554 broken_launch_world]"
proof -
  let ?w1 = "py_print ''[step] Preparing clones...'' offline_world"
  let ?w2 = "?w1\<lparr>trace := trace ?w1 @ map Clone (avd_names 1)\<rparr>"
  have t: "fst (worker_try ''MyAVD3_copy1'' 5554 broken_launch_world)
      = Inl (FileNotFoundError ''emulator'')"
    by (simp add: worker_try_def sem_acquire_def start_emulator_detached_def Let_def
        py_print_def broken_launch_world_def offline_world_def)
  have c: "clone_all (avd_names 1) ?w1 = (Inr (), ?w2)"
    by (rule clone_all_no_fault) (simp add: py_print_def offline_world_def)
  have l: "fst (list_adb_devices ?w2) = {}"
    by (simp add: list_adb_devices_def run_cmd_def Let_def py_print_def offline_world_def)
  have n: "avd_names 1 = [''MyAVD3_copy1'']"
    by (simp add: avd_names_eq BASE_AVD_def str_int_def str_nat.simps digit_chars)
  have f: "find_free_emulator_port ({} \<union> serial_of ` set []) = Inr 5554"
    by (rule find_free_InrI) simp_all
  have a0: "allocate 1 {} = Inr [(''MyAVD3_copy1'', 5554)]"
    using f by (simp add: allocate_def n)
  have a: "allocate 1 (fst (list_adb_devices ?w2)) = Inr [(''MyAVD3_copy1'', 5554)]"
    unfolding l by (rule a0)
  have one: "(1::int) \<le> 1" by simp
  from failures_stay_in_worker[where avd_name = "''MyAVD3_copy1''" and port = 5554
      and w = broken_launch_world and e = "FileNotFoundError ''emulator''" and total' = 1
      and ?w0.0 = offline_world and ?w2.0 = ?w2 and plans = "[(''MyAVD3_copy1'', 5554)]"
      and ws = "\<lambda>i. broken_launch_world"] t c a one
  show ?thesis by simp
qed

section \<open>The bound on concurrent workers\<close>

subsection \<open>Disciplined events\<close>

lemma filter_update_count:
  "i < length xs \<Longrightarrow>
     length (filter P (xs[i := y])) + (if P (xs ! i) then 1 else 0)
       = length (filter P xs) + (if P y then 1 else 0)"
proof (induction xs arbitrary: i)
  case Nil
  then show ?case by simp
next
  case (Cons x xs)
  then show ?case by (cases i) auto
qed

lemma disciplined_Acquire:
  assumes "disciplined (d @ Acquire # r)"
  shows "\<not> holding d \<and> holding (d @ [Acquire])"
proof -
  from assms obtain mid where t: "d @ Acquire # r = Acquire # mid @ [Release]" and m: "sem_free mid"
    by (auto simp: disciplined_def sem_free_def)
  have "d = []"
  proof (cases d)
    case Nil
    then show ?thesis .
  next
    case (Cons x d')
    with t have "d' @ Acquire # r = mid @ [Release]" by simp
    then have "Acquire \<in> set (mid @ [Release])" by (metis in_set_conv_decomp)
    with m show ?thesis by (simp add: sem_free_def)
  qed
  then show ?thesis by (simp add: holding_def)
qed

lemma proper_prefix_of_snoc:
  assumes "d' @ x # r = mid @ [y]"
  shows "set d' \<subseteq> set mid"
proof -
  from assms have "length (d' @ x # r) = length (mid @ [y])" by simp
  then have len: "length d' \<le> length mid" by simp
  from assms have "take (length d') (d' @ x # r) = take (length d') (mid @ [y])" by simp
  with len have "d' = take (length d') mid" by simp
  then show ?thesis by (metis set_take_subset)
qed

lemma disciplined_Release:
  assumes "disciplined (d @ Release # r)"
  shows "holding d \<and> \<not> holding (d @ [Release])"
proof -
  from assms obtain mid where t: "d @ Release # r = Acquire # mid @ [Release]" and m: "sem_free mid"
    by (auto simp: disciplined_def sem_free_def)
  from t obtain d' where d: "d = Acquire # d'" by (cases d) auto
  with t have "d' @ Release # r = mid @ [Release]" by simp
  from proper_prefix_of_snoc[OF this] m have "Release \<notin> set d'" by (auto simp: sem_free_def)
  with d show ?thesis by (simp add: holding_def)
qed

lemma disciplined_active:
  assumes "disciplined (d @ t)" and "active d t"
  shows "holding d"
proof -
  from assms(2) have p: "list_ex is_Popen d" and ne: "t \<noteq> []" by (simp_all add: active_def)
  from p have "list_ex is_Popen (d @ t)" by (auto simp: list_ex_iff)
  with assms(1) obtain mid where t: "d @ t = Acquire # mid @ [Release]" and m: "sem_free mid"
    by (auto simp: disciplined_def)
  from p obtain d' where d: "d = Acquire # d'" using t by (cases d) (auto simp: list_ex_iff)
  from ne obtain x r where xr: "t = x # r" by (cases t) auto
  with t d have "d' @ x # r = mid @ [Release]" by simp
  from proper_prefix_of_snoc[OF this] m have "Release \<notin> set d'" by (auto simp: sem_free_def)
  with d show ?thesis by (simp add: holding_def)
qed

subsection \<open>The invariant of the pool\<close>

lemma holding_other:
  "e \<noteq> Acquire \<Longrightarrow> e \<noteq> Release \<Longrightarrow> holding (d @ [e]) = holding d"
  by (auto simp: holding_def)

lemma step_inv:
  assumes inv: "pool_inv n s" and st: "step i s = Some s'"
  shows "pool_inv n s'"
proof -
  from inv have all: "list_all2 (\<lambda>d t. disciplined (d @ t)) (performed s) (pending s)"
    and sum: "permits s + holders s = n"
    by (simp_all add: pool_inv_def)
  from st have i: "i < length (pending s)" by (auto simp: step_def split: if_splits)
  with all have i': "i < length (performed s)" by (simp add: list_all2_lengthD)
  from st i obtain e rest where p: "pending s ! i = e # rest"
    by (cases "pending s ! i") (auto simp: step_def)
  let ?d = "performed s ! i"
  from all i' p have disc: "disciplined (?d @ e # rest)"
    by (metis list_all2_nthD)
  from st i p have blocked: "\<not> (e = Acquire \<and> permits s = 0)"
    by (auto simp: step_def split: if_splits)
  with st i p have s': "s' = \<lparr>permits = (if e = Acquire then permits s - 1
                                   else if e = Release then permits s + 1
                                   else permits s),
                        performed = (performed s)[i := ?d @ [e]],
                        pending = (pending s)[i := rest]\<rparr>"
    by (auto simp: step_def split: if_splits)
  have "disciplined ((?d @ [e]) @ rest)" using disc by simp
  with all have all': "list_all2 (\<lambda>d t. disciplined (d @ t)) (performed s') (pending s')"
    unfolding s' by (simp add: list_all2_update_cong)
  have count: "holders s' + (if holding ?d then 1 else 0)
      = holders s + (if holding (?d @ [e]) then 1 else 0)"
    unfolding holders_def s' using filter_update_count[OF i', of holding "?d @ [e]"] by simp
  have "permits s' + holders s' = n"
  proof (cases "e = Acquire")
    case True
    with disc have "\<not> holding ?d \<and> holding (?d @ [e])" by (simp add: disciplined_Acquire)
    with count have "holders s' = holders s + 1" by simp
    moreover from True blocked have "permits s' = permits s - 1 \<and> 0 < permits s"
      by (simp add: s')
    ultimately show ?thesis using sum by simp
  next
    case False
    show ?thesis
    proof (cases "e = Release")
      case True
      with disc have "holding ?d \<and> \<not> holding (?d @ [e])" by (simp add: disciplined_Release)
      with count have "holders s' + 1 = holders s" by simp
      moreover from True have "permits s' = permits s + 1" by (simp add: s')
      ultimately show ?thesis using sum by simp
    next
      case other: False
      with False have "holding (?d @ [e]) = holding ?d" by (simp add: holding_other)
      with count have "holders s' = holders s" by simp
      moreover from False other have "permits s' = permits s" by (simp add: s')
      ultimately show ?thesis using sum by simp
    qed
  qed
  with all' show ?thesis by (simp add: pool_inv_def)
qed

lemma run_inv: "pool_inv n s \<Longrightarrow> run sched s = Some s' \<Longrightarrow> pool_inv n s'"
proof (induction sched arbitrary: s)
  case Nil
  then show ?case by simp
next
  case (Cons i sched)
  from Cons.prems(2) obtain s1 where s1: "step i s = Some s1" and r: "run sched s1 = Some s'"
    by (auto split: option.splits)
  from step_inv[OF Cons.prems(1) s1] r show ?case by (rule Cons.IH)
qed

lemma disciplined_worker_events: "disciplined (worker_events avd_name port w)"
proof (cases "acquire_fault w")
  case None
  with instance_worker_trace[where w = w and avd_name = avd_name and port = port]
  obtain mid where
    "trace (final (instance_worker avd_name port w)) = trace w @ [Acquire] @ mid @ [Release]"
    "sem_free mid" by blast
  then show ?thesis by (auto simp: disciplined_def worker_events_def)
next
  case (Some e)
  with instance_worker_trace[where w = w and e = e and avd_name = avd_name and port = port]
  show ?thesis
    by (simp add: disciplined_def worker_events_def sem_free_def)
qed

lemma start_pool_inv: "pool_inv n (start_pool n plans ws)"
proof -
  have "list_all2 (\<lambda>d t. disciplined (d @ t)) (map (\<lambda>p. []) plans)
      (map (\<lambda>(k, name, port). worker_events name port (ws k)) (zip [0..<length plans] plans))"
    by (auto simp: list_all2_conv_all_nth disciplined_worker_events split: prod.splits)
  moreover have "filter holding (map (\<lambda>p. []) plans) = []"
    by (induction plans) (simp_all add: holding_def)
  ultimately show ?thesis by (simp add: pool_inv_def start_pool_def holders_def)
qed

lemma active_le_holders:
  assumes "list_all2 (\<lambda>d t. disciplined (d @ t)) ds ts"
  shows "length (filter (\<lambda>(d, t). active d t) (zip ds ts)) \<le> length (filter holding ds)"
  using assms
proof (induction rule: list_all2_induct)
  case Nil
  then show ?case by simp
next
  case (Cons d ds t ts)
  then show ?case using disciplined_active[of d t] by auto
qed

text \<open>
  Claim C9. Let any number of planned workers run on a semaphore of \<open>n\<close> permits, each
  performing the events of \<open>instance_worker\<close> in its own world, their steps interleaved
  in any order that the semaphore allows. In every state that such a run reaches, at most
  \<open>n\<close> workers are past the launch and before their end; moreover the free permits and
  the workers that hold one always add up to \<open>n\<close>.
\<close>

theorem permits_bound_active_workers:
  assumes "run sched (start_pool n plans ws) = Some s"
  shows "active_workers s \<le> n \<and> permits s + holders s = n"
proof -
  from run_inv[OF start_pool_inv assms] have inv: "pool_inv n s" .
  then have "active_workers s \<le> holders s"
    unfolding active_workers_def holders_def pool_inv_def by (auto intro: active_le_holders)
  with inv show ?thesis by (simp add: pool_inv_def)
qed

subsection \<open>An example: the third worker waits\<close>

lemma worker_try_after_launch:
  assumes s: "start_emulator_detached avd_name port (w\<lparr>trace := trace w @ [Acquire]\<rparr>)
                = (Inr (p, logfile), w1)"
    and a: "acquire_fault w = None"
    and t: "worker_try avd_name port w = (r, acquired, h, w')"
  shows "extends w1 w'"
proof -
  let ?w2 = "py_print (''[worker] Waiting for serial '' @ serial_of port @ '' to appear.'') w1"
  have e2: "extends w1 ?w2" by (rule extends_print)
  obtain r3 w3 where d: "wait_for_serial (serial_of port) BOOT_TIMEOUT ?w2 = (r3, w3)"
    by (cases "wait_for_serial (serial_of port) BOOT_TIMEOUT ?w2")
  then have e3: "extends w1 w3" using e2 wait_for_serial_extends extends_trans by blast
  show ?thesis
  proof (cases r3)
    case (Inl e)
    with a s d e3 t show ?thesis
      by (simp add: worker_try_def sem_acquire_def Let_def)
  next
    case r3: (Inr b)
    let ?w4 = "py_print (''[worker] '' @ serial_of port @ '' present - waiting for boot.'') w3"
    have e4: "extends w1 ?w4" using e3 extends_print by (rule extends_trans)
    obtain r5 w5 where b: "wait_for_boot_complete (serial_of port) BOOT_TIMEOUT ?w4 = (r5, w5)"
      by (cases "wait_for_boot_complete (serial_of port) BOOT_TIMEOUT ?w4")
    then have e5: "extends w1 w5"
      using e4 wait_for_boot_complete_extends extends_trans by blast
    show ?thesis
    proof (cases r5)
      case (Inl e)
      with a s d r3 b e5 t show ?thesis
        by (simp add: worker_try_def sem_acquire_def Let_def)
    next
      case r5: (Inr b')
      obtain r6 w6 where
        o: "open_cpi_and_install (serial_of port) APK_PATH PACKAGE_NAME RUN_TIME w5 = (r6, w6)"
        by (cases "open_cpi_and_install (serial_of port) APK_PATH PACKAGE_NAME RUN_TIME w5")
      then have e6: "extends w1 w6"
        using e5 open_cpi_and_install_extends extends_trans by blast
      with a s d r3 b r5 o t show ?thesis
        by (simp add: worker_try_def sem_acquire_def Let_def)
    qed
  qed
qed

lemma worker_events_launched:
  assumes a: "acquire_fault w = None" and p: "popen_fault w = None"
  shows "\<exists>rest. worker_events avd_name port w
     = [Acquire,
        Print (''[start] '' @ avd_name @ '' port='' @ str_int port @ '' -> ''
                 @ repr_list (emulator_cmd avd_name port)),
        Popen (emulator_cmd avd_name port)] @ rest @ [Release]"
proof -
  let ?w0 = "w\<lparr>trace := trace w @ [Acquire]\<rparr>"
  let ?msg = "''[start] '' @ avd_name @ '' port='' @ str_int port @ '' -> ''
                 @ repr_list (emulator_cmd avd_name port)"
  let ?w1 = "w\<lparr>trace := trace w @ [Acquire, Print ?msg, Popen (emulator_cmd avd_name port)]\<rparr>"
  have s: "start_emulator_detached avd_name port ?w0
      = (Inr (emulator_cmd avd_name port, ''emulator_logs/'' @ avd_name @ ''.log''), ?w1)"
    using p by (simp add: start_emulator_detached_def Let_def py_print_def)
  obtain r acquired h w' where t: "worker_try avd_name port w = (r, acquired, h, w')"
    by (cases "worker_try avd_name port w") auto
  from worker_try_after_launch[OF s a t] obtain es where
    es: "trace w' = trace w @ [Acquire, Print ?msg, Popen (emulator_cmd avd_name port)] @ es"
    by (auto simp: extends_def)
  from worker_try_acquired[OF a t] have acq: acquired by simp
  show ?thesis
  proof (cases r)
    case (Inl x)
    with t acq es have "worker_events avd_name port w
        = [Acquire, Print ?msg, Popen (emulator_cmd avd_name port)]
          @ (es @ [Print (''[ERROR] instance '' @ avd_name @ '' (port ''
               @ str_int port @ '') failed: '' @ str_exception x)]) @ [Release]"
      by (simp add: worker_events_def instance_worker_def sem_release_def py_print_def)
    then show ?thesis by blast
  next
    case (Inr u)
    with t acq es have "worker_events avd_name port w
        = [Acquire, Print ?msg, Popen (emulator_cmd avd_name port)] @ es @ [Release]"
      by (simp add: worker_events_def instance_worker_def sem_release_def)
    then show ?thesis by blast
  qed
qed

text \<open>
  The theorem of claim C9 for three workers on \<open>CONCURRENT_LIMIT\<close> permits: after the
  first two have launched their emulators both are active, no permit is free, and the
  third cannot step.
\<close>

theorem permits_bound_active_workers_witness:
  "\<exists>s. run [0, 0, 0, 1, 1, 1] (start_pool CONCURRENT_LIMIT three_plans (\<lambda>i. offline_world)) = Some s
      \<and> active_workers s = 2 \<and> permits s = 0 \<and> step 2 s = None
      \<and> active_workers s \<le> CONCURRENT_LIMIT"
proof -
  have f: "acquire_fault offline_world = None" "popen_fault offline_world = None"
    by (simp_all add: offline_world_def)
  from worker_events_launched[OF f, of "''MyAVD3_copy1''" 5554] obtain m1 r1 where
    1: "worker_events ''MyAVD3_copy1'' 5554 offline_world
          = [Acquire, Print m1, Popen (emulator_cmd ''MyAVD3_copy1'' 5554)] @ r1 @ [Release]"
    by blast
  from worker_events_launched[OF f, of "''MyAVD3_copy2''" 5556] obtain m2 r2 where
    2: "worker_events ''MyAVD3_copy2'' 5556 offline_world
          = [Acquire, Print m2, Popen (emulator_cmd ''MyAVD3_copy2'' 5556)] @ r2 @ [Release]"
    by blast
  from worker_events_launched[OF f, of "''MyAVD3_copy3''" 5558] obtain m3 r3 where
    3: "worker_events ''MyAVD3_copy3'' 5558 offline_world
          = [Acquire, Print m3, Popen (emulator_cmd ''MyAVD3_copy3'' 5558)] @ r3 @ [Release]"
    by blast
  have u: "[0..<3] = [0, 1, 2]" by (simp add: upt_rec)
  let ?init = "start_pool CONCURRENT_LIMIT three_plans (\<lambda>i. offline_world)"
  have init: "?init = \<lparr>permits = 2, performed = [[], [], []],
      pending = [[Acquire, Print m1, Popen (emulator_cmd ''MyAVD3_copy1'' 5554)] @ r1 @ [Release],
                 [Acquire, Print m2, Popen (emulator_cmd ''MyAVD3_copy2'' 5556)] @ r2 @ [Release],
                 [Acquire, Print m3, Popen (emulator_cmd ''MyAVD3_copy3'' 5558)] @ r3 @ [Release]]\<rparr>"
    by (simp add: start_pool_def three_plans_def CONCURRENT_LIMIT_def u 1 2 3)
  let ?s = "\<lparr>permits = 0,
      performed = [[Acquire, Print m1, Popen (emulator_cmd ''MyAVD3_copy1'' 5554)],
                   [Acquire, Print m2, Popen (emulator_cmd ''MyAVD3_copy2'' 5556)], []],
      pending = [r1 @ [Release], r2 @ [Release],
                 [Acquire, Print m3, Popen (emulator_cmd ''MyAVD3_copy3'' 5558)] @ r3 @ [Release]]\<rparr>"
  have r: "run [0, 0, 0, 1, 1, 1] ?init = Some ?s"
    unfolding init by (simp add: step_def)
  from permits_bound_active_workers[OF r] have b: "active_workers ?s \<le> CONCURRENT_LIMIT"
    by simp
  have "active_workers ?s = 2" by (simp add: active_workers_def active_def)
  moreover have "step 2 ?s = None" by (simp add: step_def)
  moreover have "permits ?s = 0" by simp
  ultimately have "run [0, 0, 0, 1, 1, 1] ?init = Some ?s
      \<and> active_workers ?s = 2 \<and> permits ?s = 0 \<and> step 2 ?s = None
      \<and> active_workers ?s \<le> CONCURRENT_LIMIT"
    using r b by blast
  then show ?thesis by (rule exI)
qed

end
